(* ===== verification/MD_Prelude.thy ===== *)
theory MD_Prelude
  imports Main "HOL-Library.Word"
begin

text \<open>
  Shared vocabulary of the development: the types that name the C data of
  \<^verbatim>\<open>src/client/ui.c\<close> (bytes, sample traces, the working buffer), the messages that the
  code hands to \<^verbatim>\<open>PrintAndLog\<close>, the reasons for which \<^verbatim>\<open>manchester_decode\<close> stops early,
  checked array accesses, and the arithmetic and list facts that several components use.
  The collection \<open>md_defs\<close> (unfoldings used to evaluate the model on a concrete
  trace) is filled by the component theories.
\<close>

section \<open>Types\<close>

type_synonym u8 = "8 word"
type_synonym trace = "u8 list"

text \<open>
  One constructor per format string that the decoder and the presenter pass to
  \<^verbatim>\<open>PrintAndLog\<close>; the arguments are the values printed by \<^verbatim>\<open>%d\<close> and \<^verbatim>\<open>%s\<close>.
\<close>

datatype log_msg =
    DetectedClock nat
  | ClockWrongError
  | PulseWidthWarning
  | TooManyDetectionErrors
  | UnsyncWarning
  | TooManyDecodeErrors
  | BitCount nat
  | BitLine string

text \<open>
  Why a decode stops before its end. The first three are the \<^verbatim>\<open>return 0\<close> statements of
  the code; \<open>OutOfBounds\<close> stands for an access outside an array, where the C program
  has no defined behaviour and the model stops.
\<close>

datatype abort = ClockWrong | TooManyDetection | TooManyDecode | OutOfBounds

type_synonym 'a result = "(abort \<times> log_msg list) + 'a"

named_theorems md_defs "unfoldings for evaluating the decoder on a concrete trace"

text \<open>
  Evaluation counts in numerals: lengths and loop indices come out of the simplifier as
  \<open>Suc (Suc 0)\<close>, which the arithmetic procedures do not divide or compare.
\<close>

lemma Suc_Suc_0_numeral [md_defs]: "Suc (Suc 0) = 2"
  by simp

section \<open>Sequencing of fallible steps\<close>

definition seq :: "'e + 'a \<Rightarrow> ('a \<Rightarrow> 'e + 'b) \<Rightarrow> 'e + 'b" where
  "seq m f = (case m of Inl e \<Rightarrow> Inl e | Inr a \<Rightarrow> f a)"

lemma seq_Inl [simp]: "seq (Inl e) f = Inl e"
  by (simp add: seq_def)

lemma seq_Inr [simp]: "seq (Inr a) f = f a"
  by (simp add: seq_def)

lemma seq_cong [fundef_cong]:
  "m = m' \<Longrightarrow> (\<And>a. m' = Inr a \<Longrightarrow> f a = f' a) \<Longrightarrow> seq m f = seq m' f'"
  by (cases m') (simp_all add: seq_def)

lemma seq_eq_Inr_iff: "seq m f = Inr b \<longleftrightarrow> (\<exists>a. m = Inr a \<and> f a = Inr b)"
  by (cases m) simp_all

lemma seq_eq_Inl_iff:
  "seq m f = Inl e \<longleftrightarrow> m = Inl e \<or> (\<exists>a. m = Inr a \<and> f a = Inl e)"
  by (cases m) simp_all

section \<open>Bytes\<close>

lemma unat_u8_less [simp]: "unat (x :: u8) < 256"
  using unsigned_less [of x, where 'a = nat] by simp

lemma unat_u8_le: "unat (x :: u8) \<le> 255"
  using unat_u8_less [of x] by arith

lemma u8_eq_iff_unat: "(x :: u8) = y \<longleftrightarrow> unat x = unat y"
  by (simp add: word_unat_eq_iff)

lemma unat_u8_eq_0 [simp]: "unat (x :: u8) = 0 \<longleftrightarrow> x = 0"
  by (simp add: unat_eq_0)

lemma unat_u8_eq_1 [simp]: "unat (x :: u8) = Suc 0 \<longleftrightarrow> x = 1"
  by (metis One_nat_def u8_eq_iff_unat unat_1)

section \<open>Pulse widths against the tolerance\<close>

text \<open>
  The decoder accepts an interval of \<open>lc\<close> samples as a half clock when
  \<open>\<bar>lc - clock / 2\<bar> < clock / 4\<close> and as a full clock when \<open>\<bar>lc - clock\<bar> < clock / 4\<close>,
  in C's integer arithmetic. Both tests fail for every \<open>lc\<close> when \<open>clock < 4\<close>; a half
  clock is at least two samples long and a full clock at least four.
\<close>

definition near :: "nat \<Rightarrow> nat \<Rightarrow> nat \<Rightarrow> bool" where
  "near lc target tolerance \<longleftrightarrow> \<bar>int lc - int target\<bar> < int tolerance"

declare near_def [md_defs]

lemma near_iff: "near lc t tol \<longleftrightarrow> lc < t + tol \<and> t < lc + tol"
  by (auto simp: near_def)

lemma near_zero_tolerance [simp]: "\<not> near lc t 0"
  by (simp add: near_def)

lemma near_small_clock: "clock < 4 \<Longrightarrow> \<not> near lc t (clock div 4)"
  by simp

lemma near_half_ge2: "near lc (clock div 2) (clock div 4) \<Longrightarrow> 2 \<le> lc"
  by (auto simp: near_iff)

lemma near_full_ge4: "near lc clock (clock div 4) \<Longrightarrow> 4 \<le> lc"
  by (auto simp: near_iff)

lemma near_half_not_full:
  "near lc (clock div 2) (clock div 4) \<Longrightarrow> \<not> near lc clock (clock div 4)"
  by (auto simp: near_iff)

section \<open>Lists as C arrays\<close>

lemma nth_list_update_other: "j \<noteq> i \<Longrightarrow> xs[i := v] ! j = xs ! j"
  by simp

lemma take_update_beyond: "n \<le> i \<Longrightarrow> take n (xs[i := v]) = take n xs"
  by simp

lemma take_Suc_update_last:
  "i < length xs \<Longrightarrow> take (Suc i) (xs[i := v]) = take i xs @ [v]"
  by (simp add: take_Suc_conv_app_nth)

lemma drop_update_before: "i < n \<Longrightarrow> drop n (xs[i := v]) = drop n xs"
  by simp

section \<open>Event lists\<close>

lemma length_somes_nones:
  "length [b. Some b \<leftarrow> evs] + length (filter (\<lambda>e. e = None) evs) = length evs"
  by (induction evs) (auto split: option.splits)

lemma length_somes_le: "length [b. Some b \<leftarrow> evs] \<le> length evs"
  using length_somes_nones [of evs] by simp

end
