(* ===== verification/Levels.thy ===== *)
theory Levels
  imports MD_Prelude
begin

text \<open>
  The first loop of \<^verbatim>\<open>manchester_decode\<close> (\<^verbatim>\<open>src/client/ui.c\<close>), which scans the trace once
  for its levels: \<open>detect_levels\<close> is the loop with the values of \<^verbatim>\<open>i\<close>, \<^verbatim>\<open>high\<close> and
  \<^verbatim>\<open>low\<close> as arguments, \<open>levels\<close> runs it from the initial values \<^verbatim>\<open>high = 1\<close> and
  \<^verbatim>\<open>low = 0\<close>. The samples are bytes and the two levels are C \<^verbatim>\<open>int\<close>s that hold sample
  values, here natural numbers. The lemmas give the result in closed form and the
  bounds that the later stages use.
\<close>

section \<open>The loop\<close>

function detect_levels :: "trace \<Rightarrow> nat \<Rightarrow> nat \<Rightarrow> nat \<Rightarrow> nat \<times> nat" where
  "detect_levels data i high low =
     (if i < length data then
        (if unat (data ! i) > high then detect_levels data (Suc i) (unat (data ! i)) low
         else if unat (data ! i) < low then detect_levels data (Suc i) high (unat (data ! i))
         else detect_levels data (Suc i) high low)
      else (high, low))"
  by pat_completeness auto
termination
  by (relation "measure (\<lambda>(data, i, high, low). length data - i)") auto

declare detect_levels.simps [simp del]

definition levels :: "trace \<Rightarrow> nat \<times> nat" where
  "levels data = detect_levels data 0 1 0"

definition high_of :: "trace \<Rightarrow> nat" where
  "high_of data = fst (levels data)"

definition low_of :: "trace \<Rightarrow> nat" where
  "low_of data = snd (levels data)"

declare levels_def [md_defs] high_of_def [md_defs] low_of_def [md_defs] detect_levels.simps [md_defs]

lemma detect_levels_done [simp]:
  "length data \<le> i \<Longrightarrow> detect_levels data i high low = (high, low)"
  by (simp add: detect_levels.simps)

lemma detect_levels_step:
  "i < length data \<Longrightarrow> low = 0 \<Longrightarrow>
   detect_levels data i high low = detect_levels data (Suc i) (max high (unat (data ! i))) low"
  by (subst detect_levels.simps) (auto simp: max_def)

lemma detect_levels_low0 [simp]: "snd (detect_levels data i high 0) = 0"
  by (induction data i high "0::nat" rule: detect_levels.induct)
     (subst detect_levels.simps, simp)

lemma detect_levels_high:
  "fst (detect_levels data i high low) = fold max (map unat (drop i data)) high"
proof (induction data i high low rule: detect_levels.induct)
  case (1 data i high low)
  show ?case
  proof (cases "i < length data")
    case True
    then have d: "drop i data = data ! i # drop (Suc i) data"
      by (simp add: Cons_nth_drop_Suc)
    consider "high < unat (data ! i)" | "unat (data ! i) \<le> high" "unat (data ! i) < low"
      | "unat (data ! i) \<le> high" "\<not> unat (data ! i) < low"
      by linarith
    then show ?thesis
    proof cases
      case 1
      with True "1.IH"(1) show ?thesis
        by (subst detect_levels.simps) (simp add: d max.absorb1)
    next
      case 2
      with True "1.IH"(2) show ?thesis
        by (subst detect_levels.simps) (simp add: d max.absorb2)
    next
      case 3
      with True "1.IH"(3) show ?thesis
        by (subst detect_levels.simps) (simp add: d max.absorb2)
    qed
  next
    case False
    then show ?thesis by simp
  qed
qed

lemma fold_max_Max: "fold max xs (a::nat) = Max (set (a # xs))"
proof (induction xs arbitrary: a)
  case Nil
  show ?case by simp
next
  case (Cons x xs)
  have "Max (insert (max x a) (set xs)) = Max (insert a (insert x (set xs)))"
    by (metis (no_types, lifting) Max_insert Max_singleton finite_insert
        insert_not_empty list.set_finite max.assoc max.commute)
  with Cons show ?case by simp
qed

lemma high_of_fold: "high_of data = fold max (map unat data) 1"
  by (simp add: high_of_def levels_def detect_levels_high)

lemma high_of_Max: "high_of data = Max (set (1 # map unat data))"
  by (simp add: high_of_fold fold_max_Max)

lemma low_of_zero: "low_of data = 0"
  by (simp add: low_of_def levels_def)

lemma high_of_ge1: "1 \<le> high_of data"
  by (simp add: high_of_Max)

lemma sample_le_high: "i < length data \<Longrightarrow> unat (data ! i) \<le> high_of data"
  by (simp add: high_of_Max Max_ge_iff)

lemma high_of_le255: "high_of data \<le> 255"
  by (auto simp: high_of_Max unat_u8_le)

lemma high_attained:
  assumes "high_of data \<noteq> 1"
  shows "\<exists>i<length data. unat (data ! i) = high_of data"
proof -
  have "high_of data \<in> set (1 # map unat data)"
    unfolding high_of_Max by (rule Max_in) simp_all
  with assms obtain x where "x \<in> set data" "unat x = high_of data"
    by auto
  then show ?thesis
    by (auto simp: in_set_conv_nth)
qed

text \<open>
  C36: The test \<^verbatim>\<open>high != 1\<close> that chooses between the two demodulators takes the second
  one exactly for the traces whose samples are all 0 or 1, the empty trace included.
\<close>

theorem binary_branch_iff: "high_of data = 1 \<longleftrightarrow> set data \<subseteq> {0, 1}"
proof
  assume h: "high_of data = 1"
  show "set data \<subseteq> {0, 1}"
  proof
    fix x assume "x \<in> set data"
    then obtain i where "i < length data" "data ! i = x"
      by (auto simp: in_set_conv_nth)
    with sample_le_high [of i data] h have "unat x \<le> 1" by simp
    then have "unat x = 0 \<or> unat x = 1" by arith
    then show "x \<in> {0, 1}" by auto
  qed
next
  assume b: "set data \<subseteq> {0, 1}"
  have "Max (set (1 # map unat data)) \<le> 1"
    using b by (subst Max_le_iff) auto
  then have "high_of data \<le> 1"
    by (simp only: high_of_Max)
  with high_of_ge1 [of data] show "high_of data = 1"
    by simp
qed

section \<open>Properties of the level detection\<close>

text \<open>
  C11: The first loop of \<^verbatim>\<open>manchester_decode\<close> leaves in \<^verbatim>\<open>high\<close> the largest sample of
  the trace, or 1 if no sample is larger than 1, and in \<^verbatim>\<open>low\<close> the value 0 for every
  trace: \<^verbatim>\<open>low\<close> starts at 0 and no byte is smaller, so the low level of the trace is
  never measured.
\<close>

theorem levels_max_zero: "levels data = (Max (set (1 # map unat data)), 0)"
  using high_of_Max [of data] low_of_zero [of data]
  by (simp add: high_of_def low_of_def prod_eq_iff)


end
