(* ===== verification/Clock.thy ===== *)
theory Clock
  imports Levels
begin

text \<open>
  The second loop of \<^verbatim>\<open>manchester_decode\<close>, which takes as clock the least distance
  between two peaks. \<open>is_peak\<close> is the test of the loop body, \<open>next_clock\<close> the update
  of \<^verbatim>\<open>clock\<close> at a peak, \<open>get_clock\<close> the loop with \<^verbatim>\<open>i\<close>, \<^verbatim>\<open>lastpeak\<close> and \<^verbatim>\<open>clock\<close>
  as arguments and \<open>detect_clock\<close> its run from \<^verbatim>\<open>i = 1\<close>, \<^verbatim>\<open>lastpeak = 0\<close> and
  \<^verbatim>\<open>clock = 0xFFFF\<close>. The reference \<open>clock_spec\<close> is the least element of the list of
  gaps between consecutive peaks.
\<close>

section \<open>The loop and its reference\<close>

definition is_peak :: "trace \<Rightarrow> nat \<Rightarrow> nat \<Rightarrow> bool" where
  "is_peak data high i \<longleftrightarrow> data ! (i - 1) \<noteq> data ! i \<and> unat (data ! i) = high"

definition next_clock :: "nat \<Rightarrow> nat \<Rightarrow> nat \<Rightarrow> nat" where
  "next_clock lastpeak i clock =
     (if lastpeak \<noteq> 0 \<and> i - lastpeak < clock then i - lastpeak else clock)"

function get_clock :: "trace \<Rightarrow> nat \<Rightarrow> nat \<Rightarrow> nat \<Rightarrow> nat \<Rightarrow> nat" where
  "get_clock data high i lastpeak clock =
     (if i < length data then
        (if is_peak data high i then
           get_clock data high (Suc i) i (next_clock lastpeak i clock)
         else get_clock data high (Suc i) lastpeak clock)
      else clock)"
  by pat_completeness auto
termination
  by (relation "measure (\<lambda>(data, high, i, lastpeak, clock). length data - i)") auto

declare get_clock.simps [simp del]

definition detect_clock :: "trace \<Rightarrow> nat \<Rightarrow> nat" where
  "detect_clock data high = get_clock data high 1 0 0xFFFF"

definition peaks :: "trace \<Rightarrow> nat \<Rightarrow> nat list" where
  "peaks data high = filter (is_peak data high) [1..<length data]"

fun gaps :: "nat list \<Rightarrow> nat list" where
  "gaps (a # b # xs) = (b - a) # gaps (b # xs)"
| "gaps xs = []"

definition clock_spec :: "trace \<Rightarrow> nat \<Rightarrow> nat" where
  "clock_spec data high = fold min (gaps (peaks data high)) 0xFFFF"

declare is_peak_def [md_defs] next_clock_def [md_defs] get_clock.simps [md_defs]
  detect_clock_def [md_defs] peaks_def [md_defs] clock_spec_def [md_defs]

lemma next_clock_min:
  "next_clock lastpeak i clock = (if lastpeak = 0 then clock else min (i - lastpeak) clock)"
  by (simp add: next_clock_def min_def)

lemma next_clock_bounds:
  "0 < clock \<Longrightarrow> lastpeak < i \<Longrightarrow> 0 < next_clock lastpeak i clock \<and> next_clock lastpeak i clock \<le> clock"
  by (simp add: next_clock_def)

lemma get_clock_done [simp]: "length data \<le> i \<Longrightarrow> get_clock data high i lastpeak clock = clock"
  by (simp add: get_clock.simps)

lemma get_clock_peak:
  "i < length data \<Longrightarrow> is_peak data high i \<Longrightarrow>
   get_clock data high i lastpeak clock =
   get_clock data high (Suc i) i (next_clock lastpeak i clock)"
  by (subst get_clock.simps) simp

lemma get_clock_no_peak:
  "i < length data \<Longrightarrow> \<not> is_peak data high i \<Longrightarrow>
   get_clock data high i lastpeak clock = get_clock data high (Suc i) lastpeak clock"
  by (subst get_clock.simps) simp

lemma get_clock_fold:
  "0 < i \<Longrightarrow>
   get_clock data high i lastpeak clock =
   fold min (gaps ((if lastpeak = 0 then [] else [lastpeak]) @
                   filter (is_peak data high) [i..<length data])) clock"
proof (induction data high i lastpeak clock rule: get_clock.induct)
  case (1 data high i lastpeak clock)
  show ?case
  proof (cases "i < length data")
    case False
    then show ?thesis by simp
  next
    case True
    then have up: "[i..<length data] = i # [Suc i..<length data]"
      by (simp add: upt_conv_Cons)
    show ?thesis
    proof (cases "is_peak data high i")
      case peak: True
      from "1.IH"(1) [OF True peak] "1.prems"
      have "get_clock data high (Suc i) i (next_clock lastpeak i clock) =
            fold min (gaps (i # filter (is_peak data high) [Suc i..<length data]))
              (next_clock lastpeak i clock)"
        by simp
      with True peak show ?thesis
        by (simp add: get_clock_peak up next_clock_min)
    next
      case False
      with True "1.IH"(2) "1.prems" show ?thesis
        by (simp add: get_clock_no_peak up)
    qed
  qed
qed

lemma detect_clock_spec: "detect_clock data high = clock_spec data high"
  by (simp add: detect_clock_def clock_spec_def peaks_def get_clock_fold)

lemma get_clock_bounds:
  "0 < clock \<Longrightarrow> lastpeak < i \<Longrightarrow>
   0 < get_clock data high i lastpeak clock \<and> get_clock data high i lastpeak clock \<le> clock"
proof (induction data high i lastpeak clock rule: get_clock.induct)
  case (1 data high i lastpeak clock)
  show ?case
  proof (cases "i < length data")
    case False
    with "1.prems" show ?thesis by simp
  next
    case True
    show ?thesis
    proof (cases "is_peak data high i")
      case peak: True
      from "1.prems" have c: "0 < next_clock lastpeak i clock" "next_clock lastpeak i clock \<le> clock"
        by (simp_all add: next_clock_bounds)
      with "1.IH"(1) [OF True peak] have
        "0 < get_clock data high (Suc i) i (next_clock lastpeak i clock)"
        "get_clock data high (Suc i) i (next_clock lastpeak i clock) \<le> clock"
        by simp_all
      with True peak show ?thesis
        by (simp add: get_clock_peak)
    next
      case False
      with True "1.IH"(2) "1.prems" show ?thesis
        by (simp add: get_clock_no_peak)
    qed
  qed
qed

lemma detect_clock_pos: "0 < detect_clock data high"
  by (simp add: detect_clock_def get_clock_bounds)

lemma detect_clock_le: "detect_clock data high \<le> 65535"
  using get_clock_bounds [of 65535 0 1 data high] by (simp add: detect_clock_def)

text \<open>
  C34: A trace with fewer than two peaks leaves the clock at its initial value 65535,
  and the decoder goes on with it: nothing reports that no clock was found.
\<close>

theorem detect_clock_sentinel:
  "length (peaks data high) < 2 \<Longrightarrow> detect_clock data high = 65535"
proof -
  assume "length (peaks data high) < 2"
  then have "gaps (peaks data high) = []"
    by (cases "peaks data high" rule: gaps.cases) simp_all
  then show ?thesis
    by (simp add: detect_clock_spec clock_spec_def)
qed

theorem detect_clock_sentinel_witness:
  "detect_clock [1, 1, 0, 0, 1, 1, 0, 0] 1 = 65535"
  using detect_clock_sentinel [of "[1, 1, 0, 0, 1, 1, 0, 0]" 1]
  by (simp add: md_defs)

lemma get_clock_eq_or_lt:
  "get_clock data high i lastpeak clock = clock \<or>
   get_clock data high i lastpeak clock < length data"
proof (induction data high i lastpeak clock rule: get_clock.induct)
  case (1 data high i lastpeak clock)
  show ?case
  proof (cases "i < length data")
    case False
    then show ?thesis by simp
  next
    case True
    show ?thesis
    proof (cases "is_peak data high i")
      case peak: True
      from True have "next_clock lastpeak i clock = clock \<or> next_clock lastpeak i clock < length data"
        by (auto simp: next_clock_def)
      with "1.IH"(1) [OF True peak] True peak show ?thesis
        by (auto simp: get_clock_peak)
    next
      case False
      with True "1.IH"(2) show ?thesis
        by (simp add: get_clock_no_peak)
    qed
  qed
qed

text \<open>
  C35: A clock other than the initial value 65535 is the distance between two indices of
  the trace, hence smaller than its length.
\<close>

theorem detect_clock_lt_length:
  "detect_clock data high \<noteq> 65535 \<Longrightarrow> detect_clock data high < length data"
  using get_clock_eq_or_lt [of data high 1 0 65535] by (simp add: detect_clock_def)

theorem detect_clock_lt_length_witness:
  "detect_clock [0, 9, 0, 9, 0] 9 = 2 \<and> (2::nat) < length [0, 9, 0, 9, 0 :: u8]"
  using detect_clock_lt_length [of "[0, 9, 0, 9, 0]" 9]
  by (simp add: md_defs)

section \<open>Properties of the clock detection\<close>

text \<open>
  C8: The second loop of \<^verbatim>\<open>manchester_decode\<close> computes the least distance between two
  consecutive peaks of the trace (samples equal to \<^verbatim>\<open>high\<close> that differ from the sample
  before them), starting from 65535: it agrees with the reference \<open>clock_spec\<close>, and the
  clock is positive and at most 65535, so the later divisions by it are defined.
\<close>

theorem detect_clock_refines:
  "detect_clock data high = clock_spec data high \<and> 0 < detect_clock data high \<and>
   detect_clock data high \<le> 65535"
  by (simp add: detect_clock_spec [symmetric] detect_clock_pos detect_clock_le)

end
