(* ===== verification/Transition.thy ===== *)
theory Transition
  imports Levels
begin

text \<open>
  The two loops of \<^verbatim>\<open>manchester_decode\<close> that look for the first transition: the first
  advances \<^verbatim>\<open>i\<close> to the first sample equal to \<^verbatim>\<open>high\<close> (\<open>skip_to_high\<close>), the second
  from there to the first sample equal to \<^verbatim>\<open>low\<close>, where it sets \<^verbatim>\<open>lastval\<close>
  (\<open>find_low\<close>, which returns \<^verbatim>\<open>i\<close> and \<^verbatim>\<open>lastval\<close>). Both leave \<^verbatim>\<open>i\<close> at the length
  of the trace when they find nothing.
\<close>

section \<open>The loops\<close>

function skip_to_high :: "trace \<Rightarrow> nat \<Rightarrow> nat \<Rightarrow> nat" where
  "skip_to_high data high i =
     (if i < length data then
        (if unat (data ! i) = high then i else skip_to_high data high (Suc i))
      else i)"
  by pat_completeness auto
termination
  by (relation "measure (\<lambda>(data, high, i). length data - i)") auto

function find_low :: "trace \<Rightarrow> nat \<Rightarrow> nat \<Rightarrow> nat \<Rightarrow> nat \<times> nat" where
  "find_low data low i lastval =
     (if i < length data then
        (if unat (data ! i) = low then (i, i) else find_low data low (Suc i) lastval)
      else (i, lastval))"
  by pat_completeness auto
termination
  by (relation "measure (\<lambda>(data, low, i, lastval). length data - i)") auto

declare skip_to_high.simps [simp del] find_low.simps [simp del]

definition first_transition :: "trace \<Rightarrow> nat \<Rightarrow> nat \<Rightarrow> nat \<times> nat" where
  "first_transition data high low = find_low data low (skip_to_high data high 0) 0"

declare first_transition_def [md_defs] skip_to_high.simps [md_defs] find_low.simps [md_defs]

lemma skip_to_high_done [simp]: "length data \<le> i \<Longrightarrow> skip_to_high data high i = i"
  by (simp add: skip_to_high.simps)

lemma skip_to_high_here [simp]:
  "i < length data \<Longrightarrow> unat (data ! i) = high \<Longrightarrow> skip_to_high data high i = i"
  by (simp add: skip_to_high.simps)

lemma skip_to_high_next [simp]:
  "i < length data \<Longrightarrow> unat (data ! i) \<noteq> high \<Longrightarrow>
   skip_to_high data high i = skip_to_high data high (Suc i)"
  by (subst skip_to_high.simps) simp

lemma find_low_done [simp]: "length data \<le> i \<Longrightarrow> find_low data low i lv = (i, lv)"
  by (simp add: find_low.simps)

lemma find_low_here [simp]:
  "i < length data \<Longrightarrow> unat (data ! i) = low \<Longrightarrow> find_low data low i lv = (i, i)"
  by (simp add: find_low.simps)

lemma find_low_next [simp]:
  "i < length data \<Longrightarrow> unat (data ! i) \<noteq> low \<Longrightarrow>
   find_low data low i lv = find_low data low (Suc i) lv"
  by (subst find_low.simps) simp

lemma skip_to_high_range:
  "i \<le> length data \<Longrightarrow>
   i \<le> skip_to_high data high i \<and> skip_to_high data high i \<le> length data"
proof (induction data high i rule: skip_to_high.induct)
  case (1 data high i)
  then show ?case
    by (cases "i < length data"; cases "unat (data ! i) = high") auto
qed

lemma skip_to_high_hit:
  "skip_to_high data high i < length data \<Longrightarrow> unat (data ! skip_to_high data high i) = high"
proof (induction data high i rule: skip_to_high.induct)
  case (1 data high i)
  then show ?case
    by (cases "i < length data"; cases "unat (data ! i) = high") auto
qed

lemma find_low_range:
  "i \<le> length data \<Longrightarrow>
   i \<le> fst (find_low data low i lv) \<and> fst (find_low data low i lv) \<le> length data"
proof (induction data low i lv rule: find_low.induct)
  case (1 data low i lv)
  then show ?case
    by (cases "i < length data"; cases "unat (data ! i) = low") auto
qed

lemma find_low_hit:
  "fst (find_low data low i lv) < length data \<Longrightarrow>
   unat (data ! fst (find_low data low i lv)) = low \<and>
   snd (find_low data low i lv) = fst (find_low data low i lv)"
proof (induction data low i lv rule: find_low.induct)
  case (1 data low i lv)
  then show ?case
    by (cases "i < length data"; cases "unat (data ! i) = low") auto
qed

lemma find_low_miss:
  "i \<le> length data \<Longrightarrow> fst (find_low data low i lv) = length data \<Longrightarrow>
   snd (find_low data low i lv) = lv"
proof (induction data low i lv rule: find_low.induct)
  case (1 data low i lv)
  then show ?case
    by (cases "i < length data"; cases "unat (data ! i) = low") auto
qed

lemma find_low_first:
  "i \<le> k \<Longrightarrow> k < fst (find_low data low i lv) \<Longrightarrow> unat (data ! k) \<noteq> low"
proof (induction data low i lv rule: find_low.induct)
  case (1 data low i lv)
  then show ?case
    by (cases "i < length data"; cases "unat (data ! i) = low"; cases "k = i") auto
qed

lemma first_transition_le: "fst (first_transition data high low) \<le> length data"
  using skip_to_high_range [of 0 data high] find_low_range [of "skip_to_high data high 0" data low 0]
  by (simp add: first_transition_def)

lemma first_transition_low:
  "fst (first_transition data high low) < length data \<Longrightarrow>
   unat (data ! fst (first_transition data high low)) = low \<and>
   snd (first_transition data high low) = fst (first_transition data high low)"
  unfolding first_transition_def by (rule find_low_hit)

lemma first_transition_none:
  "fst (first_transition data high low) = length data \<Longrightarrow> snd (first_transition data high low) = 0"
  unfolding first_transition_def
  using skip_to_high_range [of 0 data high] by (intro find_low_miss) simp_all

lemma first_transition_after_high:
  assumes "fst (first_transition data high low) < length data" and "high \<noteq> low"
  shows "0 < fst (first_transition data high low) \<and>
         unat (data ! (fst (first_transition data high low) - 1)) \<noteq> low"
proof -
  let ?h = "skip_to_high data high 0"
  let ?s = "fst (find_low data low ?h 0)"
  have hs: "?h \<le> ?s" "?s \<le> length data"
    using skip_to_high_range [of 0 data high] find_low_range [of ?h data low 0] by simp_all
  from assms(1) have s: "?s < length data" "unat (data ! ?s) = low"
    using find_low_hit [of data low ?h 0] by (simp_all add: first_transition_def)
  with hs have "?h < length data" by simp
  then have "unat (data ! ?h) = high" by (rule skip_to_high_hit)
  with s assms(2) have "?h \<noteq> ?s" by auto
  with hs have lt: "?h < ?s" by simp
  then have "?h \<le> ?s - 1" "?s - 1 < ?s" by simp_all
  then have "unat (data ! (?s - 1)) \<noteq> low" by (rule find_low_first)
  with lt show ?thesis by (simp add: first_transition_def)
qed

section \<open>The searches on lists\<close>

text \<open>
  Each loop stops behind the longest run of samples that differ from the level it looks
  for: the index it returns is the number of such samples from where it starts.
\<close>

lemma skip_to_high_takeWhile:
  "i \<le> length data \<Longrightarrow>
   skip_to_high data high i = i + length (takeWhile (\<lambda>x. unat x \<noteq> high) (drop i data))"
proof (induction data high i rule: skip_to_high.induct)
  case (1 data high i)
  show ?case
  proof (cases "i < length data")
    case True
    with 1 show ?thesis
      by (cases "unat (data ! i) = high") (simp_all flip: Cons_nth_drop_Suc)
  qed (use 1 in simp)
qed

lemma find_low_takeWhile:
  "i \<le> length data \<Longrightarrow>
   find_low data low i lv =
     (let k = i + length (takeWhile (\<lambda>x. unat x \<noteq> low) (drop i data))
      in (k, if k < length data then k else lv))"
proof (induction data low i lv rule: find_low.induct)
  case (1 data low i lv)
  show ?case
  proof (cases "i < length data")
    case True
    with 1 show ?thesis
      by (cases "unat (data ! i) = low") (simp_all add: Let_def flip: Cons_nth_drop_Suc)
  qed (use 1 in simp)
qed

section \<open>Properties of the search for the first transition\<close>

text \<open>
  C12: The two search loops stop at the first sample equal to \<^verbatim>\<open>low\<close> at or after the
  first sample equal to \<^verbatim>\<open>high\<close>, and \<^verbatim>\<open>lastval\<close> is that index; when there is no such
  sample the index is the length of the trace and \<^verbatim>\<open>lastval\<close> keeps the value 0. On
  lists: \<open>h\<close> is the number of samples before the first one equal to \<^verbatim>\<open>high\<close>, and the
  index returned is \<open>h\<close> plus the number of samples from \<open>h\<close> on before the first one
  equal to \<^verbatim>\<open>low\<close>.
\<close>

theorem first_transition_spec:
  "first_transition data high low =
     (let h = length (takeWhile (\<lambda>x. unat x \<noteq> high) data);
          i = h + length (takeWhile (\<lambda>x. unat x \<noteq> low) (drop h data))
      in (i, if i < length data then i else 0))"
proof -
  have "length (takeWhile (\<lambda>x. unat x \<noteq> high) data) \<le> length data"
    by (rule length_takeWhile_le)
  then show ?thesis
    by (simp add: first_transition_def skip_to_high_takeWhile find_low_takeWhile Let_def)
qed

theorem first_transition_spec_witness:
  "first_transition [0, 5, 0] 5 0 = (2, 2) \<and> first_transition [0, 5, 5, 3, 0, 5] 5 0 = (4, 4) \<and>
   first_transition [0, 5, 5] 5 0 = (3, 0) \<and> first_transition [0, 3, 0] 5 0 = (3, 0)"
  using first_transition_spec [of "[0, 5, 0]" 5 0] first_transition_spec [of "[0, 5, 5, 3, 0, 5]" 5 0]
    first_transition_spec [of "[0, 5, 5]" 5 0] first_transition_spec [of "[0, 3, 0]" 5 0]
  by simp

end
