(* ===== verification/Buffer.thy ===== *)
theory Buffer
  imports MD_Prelude
begin

text \<open>
  The local variables of \<^verbatim>\<open>manchester_decode\<close> that its later loops share, as the
  record \<open>dec_state\<close>: the array \<^verbatim>\<open>bitStream\<close>, which holds first the symbols and then
  the decoded bits, the write cursor \<^verbatim>\<open>bitidx\<close> of the symbols, the write cursor
  \<^verbatim>\<open>bit2idx\<close> of the bits, \<^verbatim>\<open>lastval\<close>, \<^verbatim>\<open>warnings\<close>, and the messages passed to
  \<^verbatim>\<open>PrintAndLog\<close> so far. Reads and writes of the array are checked: outside the array
  they give \<open>fault\<close>. \<open>give_up\<close> is a \<^verbatim>\<open>return 0\<close> after a last message. The
  predicates \<open>wrote_bits\<close> and \<open>tail_zero\<close> say what a stage changes and that the cells
  not yet written still hold the zeros of \<^verbatim>\<open>memset\<close>.
\<close>

section \<open>State and accesses\<close>

record dec_state =
  bitStream :: "u8 list"
  bitidx :: nat
  bit2idx :: nat
  lastval :: nat
  warnings :: nat
  printed :: "log_msg list"

definition init_state :: "nat \<Rightarrow> dec_state" where
  "init_state bytelength =
     \<lparr>bitStream = replicate bytelength 0, bitidx = 0, bit2idx = 0, lastval = 0,
      warnings = 0, printed = []\<rparr>"

definition emit :: "log_msg \<Rightarrow> dec_state \<Rightarrow> dec_state" where
  "emit m s = s\<lparr>printed := printed s @ [m]\<rparr>"

definition give_up :: "abort \<Rightarrow> log_msg \<Rightarrow> dec_state \<Rightarrow> 'a result" where
  "give_up why m s = Inl (why, printed s @ [m])"

definition fault :: "dec_state \<Rightarrow> 'a result" where
  "fault s = Inl (OutOfBounds, printed s)"

definition get_sym :: "nat \<Rightarrow> dec_state \<Rightarrow> u8 result" where
  "get_sym i s = (if i < length (bitStream s) then Inr (bitStream s ! i) else fault s)"

definition put_sym :: "u8 \<Rightarrow> dec_state \<Rightarrow> dec_state result" where
  "put_sym v s =
     (if bitidx s < length (bitStream s)
      then Inr (s\<lparr>bitStream := (bitStream s)[bitidx s := v], bitidx := Suc (bitidx s)\<rparr>)
      else fault s)"

definition put_bit :: "u8 \<Rightarrow> dec_state \<Rightarrow> dec_state result" where
  "put_bit v s =
     (if bit2idx s < length (bitStream s)
      then Inr (s\<lparr>bitStream := (bitStream s)[bit2idx s := v], bit2idx := Suc (bit2idx s)\<rparr>)
      else fault s)"

definition warn :: "log_msg \<Rightarrow> dec_state \<Rightarrow> dec_state" where
  "warn m s = emit m (s\<lparr>warnings := Suc (warnings s)\<rparr>)"

definition decoded :: "dec_state \<Rightarrow> u8 list" where
  "decoded s = take (bit2idx s) (bitStream s)"

definition symbols :: "dec_state \<Rightarrow> u8 list" where
  "symbols s = take (bitidx s) (bitStream s)"

definition tail_zero :: "dec_state \<Rightarrow> bool" where
  "tail_zero s \<longleftrightarrow>
     drop (bitidx s) (bitStream s) = replicate (length (bitStream s) - bitidx s) 0"

definition wrote_bits :: "dec_state \<Rightarrow> u8 list \<Rightarrow> dec_state \<Rightarrow> bool" where
  "wrote_bits s vs s' \<longleftrightarrow>
     decoded s' = decoded s @ vs \<and> bit2idx s' = bit2idx s + length vs \<and>
     length (bitStream s') = length (bitStream s) \<and>
     drop (bit2idx s') (bitStream s') = drop (bit2idx s') (bitStream s) \<and>
     bitidx s' = bitidx s \<and> lastval s' = lastval s \<and> warnings s' = warnings s \<and>
     printed s' = printed s"

declare init_state_def [md_defs] emit_def [md_defs] give_up_def [md_defs] fault_def [md_defs]
  get_sym_def [md_defs] put_sym_def [md_defs] put_bit_def [md_defs] warn_def [md_defs]
  decoded_def [md_defs] symbols_def [md_defs]

lemma init_state_simps [simp]:
  "bitStream (init_state n) = replicate n 0" "bitidx (init_state n) = 0"
  "bit2idx (init_state n) = 0" "lastval (init_state n) = 0"
  "warnings (init_state n) = 0" "printed (init_state n) = []"
  by (simp_all add: init_state_def)

lemma emit_simps [simp]:
  "bitStream (emit m s) = bitStream s" "bitidx (emit m s) = bitidx s"
  "bit2idx (emit m s) = bit2idx s" "lastval (emit m s) = lastval s"
  "warnings (emit m s) = warnings s" "printed (emit m s) = printed s @ [m]"
  by (simp_all add: emit_def)

lemma warn_simps [simp]:
  "bitStream (warn m s) = bitStream s" "bitidx (warn m s) = bitidx s"
  "bit2idx (warn m s) = bit2idx s" "lastval (warn m s) = lastval s"
  "warnings (warn m s) = Suc (warnings s)" "printed (warn m s) = printed s @ [m]"
  by (simp_all add: warn_def)

lemma put_sym_Inr_iff:
  "put_sym v s = Inr t \<longleftrightarrow>
   bitidx s < length (bitStream s) \<and>
   t = s\<lparr>bitStream := (bitStream s)[bitidx s := v], bitidx := Suc (bitidx s)\<rparr>"
  by (auto simp: put_sym_def fault_def)

lemma put_bit_Inr_iff:
  "put_bit v s = Inr t \<longleftrightarrow>
   bit2idx s < length (bitStream s) \<and>
   t = s\<lparr>bitStream := (bitStream s)[bit2idx s := v], bit2idx := Suc (bit2idx s)\<rparr>"
  by (auto simp: put_bit_def fault_def)

lemma put_sym_ok [simp]:
  "bitidx s < length (bitStream s) \<Longrightarrow>
   put_sym v s = Inr (s\<lparr>bitStream := (bitStream s)[bitidx s := v], bitidx := Suc (bitidx s)\<rparr>)"
  by (simp add: put_sym_def)

lemma put_bit_ok [simp]:
  "bit2idx s < length (bitStream s) \<Longrightarrow>
   put_bit v s = Inr (s\<lparr>bitStream := (bitStream s)[bit2idx s := v], bit2idx := Suc (bit2idx s)\<rparr>)"
  by (simp add: put_bit_def)

lemma get_sym_ok [simp]: "i < length (bitStream s) \<Longrightarrow> get_sym i s = Inr (bitStream s ! i)"
  by (simp add: get_sym_def)

lemma put_sym_fault [simp]: "length (bitStream s) \<le> bitidx s \<Longrightarrow> put_sym v s = fault s"
  by (simp add: put_sym_def)

lemma put_bit_fault [simp]: "length (bitStream s) \<le> bit2idx s \<Longrightarrow> put_bit v s = fault s"
  by (simp add: put_bit_def)

lemma get_sym_fault [simp]: "length (bitStream s) \<le> i \<Longrightarrow> get_sym i s = fault s"
  by (simp add: get_sym_def)

lemma decoded_put_bit:
  "bit2idx s < length (bitStream s) \<Longrightarrow>
   decoded (s\<lparr>bitStream := (bitStream s)[bit2idx s := v], bit2idx := Suc (bit2idx s)\<rparr>) = decoded s @ [v]"
  by (simp add: decoded_def take_Suc_update_last)

lemma length_decoded: "bit2idx s \<le> length (bitStream s) \<Longrightarrow> length (decoded s) = bit2idx s"
  by (simp add: decoded_def)

lemma wrote_bits_refl [simp]: "wrote_bits s [] s"
  by (simp add: wrote_bits_def)

lemma wrote_bits_put_bit:
  "bit2idx s < length (bitStream s) \<Longrightarrow>
   wrote_bits s [v] (s\<lparr>bitStream := (bitStream s)[bit2idx s := v], bit2idx := Suc (bit2idx s)\<rparr>)"
  by (simp add: wrote_bits_def decoded_put_bit)

lemma wrote_bits_trans:
  "wrote_bits s vs t \<Longrightarrow> wrote_bits t ws u \<Longrightarrow> wrote_bits s (vs @ ws) u"
  by (auto simp: wrote_bits_def) (metis add.commute drop_drop)

lemma symbols_put_sym:
  "bitidx s < length (bitStream s) \<Longrightarrow>
   symbols (s\<lparr>bitStream := (bitStream s)[bitidx s := v], bitidx := Suc (bitidx s)\<rparr>) = symbols s @ [v]"
  by (simp add: symbols_def take_Suc_update_last)

lemma symbols_frame [simp]:
  "symbols (s\<lparr>lastval := l\<rparr>) = symbols s" "symbols (warn m s) = symbols s"
  "symbols (emit m s) = symbols s" "symbols (s\<lparr>warnings := w\<rparr>) = symbols s"
  by (simp_all add: symbols_def)

lemma decoded_frame [simp]:
  "decoded (s\<lparr>lastval := l\<rparr>) = decoded s" "decoded (warn m s) = decoded s"
  "decoded (emit m s) = decoded s" "decoded (s\<lparr>warnings := w\<rparr>) = decoded s"
  "decoded (s\<lparr>bitidx := k\<rparr>) = decoded s"
  by (simp_all add: decoded_def)

lemma put_sym_InrD:
  assumes "put_sym v s = Inr s'"
  shows "symbols s' = symbols s @ [v]" "bitidx s' = Suc (bitidx s)"
    "length (bitStream s') = length (bitStream s)" "bit2idx s' = bit2idx s"
    "lastval s' = lastval s" "warnings s' = warnings s" "printed s' = printed s"
  using assms by (auto simp: put_sym_Inr_iff symbols_put_sym)

lemma put_bit_InrD:
  assumes "put_bit v s = Inr s'"
  shows "decoded s' = decoded s @ [v]" "bit2idx s' = Suc (bit2idx s)"
    "length (bitStream s') = length (bitStream s)" "bitidx s' = bitidx s"
    "lastval s' = lastval s" "warnings s' = warnings s" "printed s' = printed s"
  using assms by (auto simp: put_bit_Inr_iff decoded_put_bit)

lemma tail_zero_frame [simp]:
  "tail_zero (s\<lparr>lastval := l\<rparr>) = tail_zero s" "tail_zero (warn m s) = tail_zero s"
  "tail_zero (emit m s) = tail_zero s"
  by (simp_all add: tail_zero_def)

lemma tail_zero_init [simp]: "tail_zero ((init_state n)\<lparr>bitidx := k\<rparr>)"
  by (simp add: tail_zero_def)

lemma tail_zero_put_sym:
  assumes "put_sym v s = Inr s'" and "tail_zero s"
  shows "tail_zero s'"
proof -
  from assms(1) have b: "bitidx s < length (bitStream s)"
    and s': "s' = s\<lparr>bitStream := (bitStream s)[bitidx s := v], bitidx := Suc (bitidx s)\<rparr>"
    by (simp_all add: put_sym_Inr_iff)
  have "drop (Suc (bitidx s)) (bitStream s) = drop 1 (drop (bitidx s) (bitStream s))"
    by simp
  also from assms(2) have "\<dots> = drop 1 (replicate (length (bitStream s) - bitidx s) 0)"
    by (simp only: tail_zero_def)
  finally show ?thesis
    using b by (simp add: s' tail_zero_def)
qed

lemma tail_zero_next:
  "tail_zero s \<Longrightarrow> bitidx s < length (bitStream s) \<Longrightarrow> bitStream s ! bitidx s = 0"
  by (metis Cons_nth_drop_Suc Suc_diff_Suc list.inject replicate_Suc tail_zero_def)

section \<open>The messages of a result\<close>

text \<open>
  What has been printed when a step ends, whether it gives up or not. Every step only
  appends to it.
\<close>

definition log_of :: "dec_state result \<Rightarrow> log_msg list" where
  "log_of r = (case r of Inl (why, l) \<Rightarrow> l | Inr s \<Rightarrow> printed s)"

lemma log_of_simps [simp]:
  "log_of (Inl (why, l)) = l" "log_of (Inr s) = printed s"
  "log_of (give_up why m s) = printed s @ [m]" "log_of (fault s) = printed s"
  by (simp_all add: log_of_def give_up_def fault_def)

lemma log_of_put_sym [simp]: "log_of (put_sym v s) = printed s"
  by (simp add: put_sym_def)

lemma log_of_seq:
  assumes "\<exists>rest. log_of m = l @ rest"
    and "\<And>s. m = Inr s \<Longrightarrow> \<exists>rest. log_of (f s) = printed s @ rest"
  shows "\<exists>rest. log_of (seq m f) = l @ rest"
proof (cases m)
  case (Inl e)
  with assms(1) show ?thesis by simp
next
  case (Inr s)
  with assms(1) assms(2) [OF Inr] show ?thesis by auto
qed

end
