(* ===== verification/Pulse_Demod.thy ===== *)
theory Pulse_Demod
  imports Buffer
begin

text \<open>
  The branch of \<^verbatim>\<open>manchester_decode\<close> for traces of zeros and ones: the distance between
  two transitions is compared with half a clock and with a clock, and one or two
  symbols are written. \<open>pulse_step\<close> is the body of the loop at sample \<open>i\<close>, with its
  two early returns; \<open>pulse_loop\<close> the loop; \<open>pulse_demod\<close> the loop after
  \<^verbatim>\<open>bitidx = 1\<close>. The reference works on the list of \<open>transitions\<close> (width of the
  pulse and sample before the edge): \<open>classify\<close>, \<open>pulse_symbols\<close>, \<open>pulse_stream\<close>,
  \<open>anomalies\<close>. \<open>pulse_inv\<close> is the invariant that keeps the writes inside the array.
\<close>

section \<open>The loop, its reference and its invariant\<close>

definition pulse_step :: "trace \<Rightarrow> nat \<Rightarrow> nat \<Rightarrow> nat \<Rightarrow> dec_state \<Rightarrow> dec_state result" where
  "pulse_step data clock tolerance i s =
     (if i = 0 then fault s
      else if data ! (i - 1) \<noteq> data ! i then
        (let lc = i - lastval s; s1 = s\<lparr>lastval := i\<rparr> in
         if bitidx s1 > length data * 2 div clock + 8
         then give_up ClockWrong ClockWrongError s1
         else if near lc (clock div 2) tolerance then put_sym (data ! (i - 1)) s1
         else if near lc clock tolerance
         then seq (put_sym (data ! (i - 1)) s1) (put_sym (data ! (i - 1)))
         else (let s2 = warn PulseWidthWarning s1 in
               if warnings s2 > 10 then give_up TooManyDetection TooManyDetectionErrors s2
               else Inr s2))
      else Inr s)"

function pulse_loop :: "trace \<Rightarrow> nat \<Rightarrow> nat \<Rightarrow> nat \<Rightarrow> dec_state \<Rightarrow> dec_state result" where
  "pulse_loop data clock tolerance i s =
     (if i < length data
      then seq (pulse_step data clock tolerance i s) (pulse_loop data clock tolerance (Suc i))
      else Inr s)"
  by pat_completeness auto
termination
  by (relation "measure (\<lambda>(data, clock, tolerance, i, s). length data - i)") auto

declare pulse_loop.simps [simp del]

definition pulse_demod :: "trace \<Rightarrow> nat \<Rightarrow> nat \<Rightarrow> nat \<Rightarrow> dec_state \<Rightarrow> dec_state result" where
  "pulse_demod data clock tolerance i s = pulse_loop data clock tolerance i (s\<lparr>bitidx := 1\<rparr>)"

datatype pulse = Short | Long | Anomaly

definition classify :: "nat \<Rightarrow> nat \<Rightarrow> nat \<Rightarrow> pulse" where
  "classify clock tolerance lc =
     (if near lc (clock div 2) tolerance then Short
      else if near lc clock tolerance then Long else Anomaly)"

fun pulse_symbols :: "pulse \<Rightarrow> u8 \<Rightarrow> u8 list" where
  "pulse_symbols Short v = [v]"
| "pulse_symbols Long v = [v, v]"
| "pulse_symbols Anomaly v = []"

function transitions :: "trace \<Rightarrow> nat \<Rightarrow> nat \<Rightarrow> (nat \<times> u8) list" where
  "transitions data i lv =
     (if i < length data then
        (if data ! (i - 1) \<noteq> data ! i
         then (i - lv, data ! (i - 1)) # transitions data (Suc i) i
         else transitions data (Suc i) lv)
      else [])"
  by pat_completeness auto
termination
  by (relation "measure (\<lambda>(data, i, lv). length data - i)") auto

declare transitions.simps [simp del]

definition pulse_stream :: "nat \<Rightarrow> nat \<Rightarrow> (nat \<times> u8) list \<Rightarrow> u8 list" where
  "pulse_stream clock tolerance ts =
     concat (map (\<lambda>(lc, v). pulse_symbols (classify clock tolerance lc) v) ts)"

definition anomalies :: "nat \<Rightarrow> nat \<Rightarrow> (nat \<times> u8) list \<Rightarrow> nat" where
  "anomalies clock tolerance ts =
     length (filter (\<lambda>(lc, v). classify clock tolerance lc = Anomaly) ts)"

definition pulse_inv :: "trace \<Rightarrow> nat \<Rightarrow> dec_state \<Rightarrow> bool" where
  "pulse_inv data i s \<longleftrightarrow>
     length (bitStream s) = length data \<and> 0 < bitidx s \<and> lastval s \<le> i \<and>
     2 * bitidx s \<le> lastval s + 1"

declare pulse_step_def [md_defs] pulse_loop.simps [md_defs]
  pulse_demod_def [md_defs] classify_def [md_defs] transitions.simps [md_defs]
  pulse_stream_def [md_defs] anomalies_def [md_defs] pulse_inv_def [md_defs]

lemma pulse_loop_done [simp]:
  "length data \<le> i \<Longrightarrow> pulse_loop data clock tolerance i s = Inr s"
  by (simp add: pulse_loop.simps)

lemma pulse_loop_step:
  "i < length data \<Longrightarrow>
   pulse_loop data clock tolerance i s =
   seq (pulse_step data clock tolerance i s) (pulse_loop data clock tolerance (Suc i))"
  by (subst pulse_loop.simps) simp

lemma pulse_step_quiet:
  "0 < i \<Longrightarrow> data ! (i - 1) = data ! i \<Longrightarrow> pulse_step data clock tolerance i s = Inr s"
  by (simp add: pulse_step_def)

lemma pulse_step_short:
  assumes "0 < i" "data ! (i - 1) \<noteq> data ! i"
    and "bitidx s \<le> length data * 2 div clock + 8"
    and "near (i - lastval s) (clock div 2) tolerance"
  shows "pulse_step data clock tolerance i s = put_sym (data ! (i - 1)) (s\<lparr>lastval := i\<rparr>)"
  using assms by (simp add: pulse_step_def Let_def)

lemma pulse_step_long:
  assumes "0 < i" "data ! (i - 1) \<noteq> data ! i"
    and "bitidx s \<le> length data * 2 div clock + 8"
    and "\<not> near (i - lastval s) (clock div 2) tolerance"
    and "near (i - lastval s) clock tolerance"
  shows "pulse_step data clock tolerance i s =
         seq (put_sym (data ! (i - 1)) (s\<lparr>lastval := i\<rparr>)) (put_sym (data ! (i - 1)))"
  using assms by (simp add: pulse_step_def Let_def)

lemma pulse_step_anomaly:
  assumes "0 < i" "data ! (i - 1) \<noteq> data ! i"
    and "bitidx s \<le> length data * 2 div clock + 8"
    and "\<not> near (i - lastval s) (clock div 2) tolerance"
    and "\<not> near (i - lastval s) clock tolerance"
  shows "pulse_step data clock tolerance i s =
         (if 10 \<le> warnings s
          then give_up TooManyDetection TooManyDetectionErrors (warn PulseWidthWarning (s\<lparr>lastval := i\<rparr>))
          else Inr (warn PulseWidthWarning (s\<lparr>lastval := i\<rparr>)))"
  using assms by (auto simp: pulse_step_def Let_def)

lemma pulse_step_clock_wrong:
  assumes "0 < i" "data ! (i - 1) \<noteq> data ! i"
    and "length data * 2 div clock + 8 < bitidx s"
  shows "pulse_step data clock tolerance i s = give_up ClockWrong ClockWrongError (s\<lparr>lastval := i\<rparr>)"
  using assms by (simp add: pulse_step_def Let_def)

lemmas pulse_step_cases =
  pulse_step_quiet pulse_step_short pulse_step_long pulse_step_anomaly pulse_step_clock_wrong

lemma pulse_step_inv:
  assumes inv: "pulse_inv data i s" and i: "0 < i" "i < length data"
  shows "(\<forall>l. pulse_step data clock (clock div 4) i s \<noteq> Inl (OutOfBounds, l)) \<and>
         (\<forall>s'. pulse_step data clock (clock div 4) i s = Inr s' \<longrightarrow> pulse_inv data (Suc i) s')"
proof -
  let ?lc = "i - lastval s"
  from inv have len: "length (bitStream s) = length data" and pos: "0 < bitidx s"
    and lv: "lastval s \<le> i" and room: "2 * bitidx s \<le> lastval s + 1"
    by (simp_all add: pulse_inv_def)
  consider (quiet) "data ! (i - 1) = data ! i"
    | (wrong) "data ! (i - 1) \<noteq> data ! i" "length data * 2 div clock + 8 < bitidx s"
    | (short) "data ! (i - 1) \<noteq> data ! i" "bitidx s \<le> length data * 2 div clock + 8"
        "near ?lc (clock div 2) (clock div 4)"
    | (long) "data ! (i - 1) \<noteq> data ! i" "bitidx s \<le> length data * 2 div clock + 8"
        "\<not> near ?lc (clock div 2) (clock div 4)" "near ?lc clock (clock div 4)"
    | (anomaly) "data ! (i - 1) \<noteq> data ! i" "bitidx s \<le> length data * 2 div clock + 8"
        "\<not> near ?lc (clock div 2) (clock div 4)" "\<not> near ?lc clock (clock div 4)"
    by linarith
  then show ?thesis
  proof cases
    case quiet
    with inv i show ?thesis
      by (simp add: pulse_step_quiet pulse_inv_def)
  next
    case wrong
    with i show ?thesis
      by (simp add: pulse_step_clock_wrong give_up_def)
  next
    case short
    from near_half_ge2 [OF short(3)] room i have w: "2 * bitidx s + 1 \<le> i" "bitidx s < length data"
      by linarith+
    with short len pos i show ?thesis
      by (simp add: pulse_step_short pulse_inv_def)
  next
    case long
    from near_full_ge4 [OF long(4)] room i have w: "2 * bitidx s + 3 \<le> i" "Suc (bitidx s) < length data"
      by linarith+
    with long len pos i show ?thesis
      by (simp add: pulse_step_long pulse_inv_def)
  next
    case anomaly
    with inv i show ?thesis
      by (simp add: pulse_step_anomaly pulse_inv_def give_up_def)
  qed
qed

lemma pulse_loop_inv:
  assumes "pulse_inv data i s" and "0 < i" and "i \<le> length data"
  shows "(\<forall>l. pulse_loop data clock (clock div 4) i s \<noteq> Inl (OutOfBounds, l)) \<and>
         (\<forall>s'. pulse_loop data clock (clock div 4) i s = Inr s' \<longrightarrow>
               pulse_inv data (length data) s')"
  using assms
proof (induction data clock "clock div 4" i s rule: pulse_loop.induct)
  case (1 data clock i s)
  show ?case
  proof (cases "i < length data")
    case False
    with "1.prems" show ?thesis by simp
  next
    case True
    note step = pulse_step_inv [OF "1.prems"(1,2) True, of clock]
    show ?thesis
    proof (cases "pulse_step data clock (clock div 4) i s")
      case (Inl e)
      with step True show ?thesis
        by (auto simp: pulse_loop_step)
    next
      case (Inr s1)
      with step have "pulse_inv data (Suc i) s1" by simp
      from "1.hyps" [OF True Inr this] True Inr show ?thesis
        by (simp add: pulse_loop_step)
    qed
  qed
qed

lemma pulse_step_frame:
  assumes "pulse_step data clock tolerance i s = Inr s'"
  shows "bit2idx s' = bit2idx s \<and> length (bitStream s') = length (bitStream s) \<and>
         bitidx s \<le> bitidx s' \<and> warnings s \<le> warnings s' \<and> warnings s' \<le> max 10 (warnings s)"
  using assms
  by (auto simp: pulse_step_def Let_def seq_eq_Inr_iff put_sym_Inr_iff give_up_def fault_def
      split: if_splits)

lemma pulse_loop_frame:
  assumes "pulse_loop data clock tolerance i s = Inr s'"
  shows "bit2idx s' = bit2idx s \<and> length (bitStream s') = length (bitStream s) \<and>
         bitidx s \<le> bitidx s' \<and> warnings s \<le> warnings s' \<and> warnings s' \<le> max 10 (warnings s)"
  using assms
proof (induction data clock tolerance i s rule: pulse_loop.induct)
  case (1 data clock tolerance i s)
  show ?case
  proof (cases "i < length data")
    case False
    with "1.prems" show ?thesis by simp
  next
    case True
    with "1.prems" obtain s1 where s1: "pulse_step data clock tolerance i s = Inr s1"
      and rest: "pulse_loop data clock tolerance (Suc i) s1 = Inr s'"
      by (auto simp: pulse_loop_step seq_eq_Inr_iff)
    from pulse_step_frame [OF s1] "1.IH" [OF True s1 rest] show ?thesis
      by auto
  qed
qed

lemma transitions_done [simp]: "length data \<le> i \<Longrightarrow> transitions data i lv = []"
  by (simp add: transitions.simps)

lemma transitions_edge:
  "i < length data \<Longrightarrow> data ! (i - 1) \<noteq> data ! i \<Longrightarrow>
   transitions data i lv = (i - lv, data ! (i - 1)) # transitions data (Suc i) i"
  by (subst transitions.simps) simp

lemma transitions_flat:
  "i < length data \<Longrightarrow> data ! (i - 1) = data ! i \<Longrightarrow>
   transitions data i lv = transitions data (Suc i) lv"
  by (subst transitions.simps) simp

lemma pulse_stream_simps [simp]:
  "pulse_stream clock tolerance [] = []"
  "pulse_stream clock tolerance ((lc, v) # ts) =
     pulse_symbols (classify clock tolerance lc) v @ pulse_stream clock tolerance ts"
  by (simp_all add: pulse_stream_def)

lemma anomalies_simps [simp]:
  "anomalies clock tolerance [] = 0"
  "anomalies clock tolerance ((lc, v) # ts) =
     (if classify clock tolerance lc = Anomaly then Suc (anomalies clock tolerance ts)
      else anomalies clock tolerance ts)"
  by (simp_all add: anomalies_def)

lemma pulse_step_edge:
  assumes ok: "pulse_step data clock tolerance i s = Inr s'" and i: "0 < i"
    and edge: "data ! (i - 1) \<noteq> data ! i"
  shows "symbols s' = symbols s @ pulse_symbols (classify clock tolerance (i - lastval s)) (data ! (i - 1))
         \<and> bitidx s' = bitidx s + length (pulse_symbols (classify clock tolerance (i - lastval s)) (data ! (i - 1)))
         \<and> lastval s' = i
         \<and> warnings s' = warnings s + (if classify clock tolerance (i - lastval s) = Anomaly then 1 else 0)
         \<and> printed s' = printed s @
              (if classify clock tolerance (i - lastval s) = Anomaly then [PulseWidthWarning] else [])"
proof -
  let ?lc = "i - lastval s" and ?v = "data ! (i - 1)" and ?s1 = "s\<lparr>lastval := i\<rparr>"
  from ok i edge have fits: "bitidx s \<le> length data * 2 div clock + 8"
    by (rule_tac ccontr) (simp add: pulse_step_clock_wrong give_up_def)
  show ?thesis
  proof (cases "classify clock tolerance ?lc")
    case Short
    then have "near ?lc (clock div 2) tolerance"
      by (simp add: classify_def split: if_splits)
    with ok i edge fits have "put_sym ?v ?s1 = Inr s'"
      by (simp add: pulse_step_short)
    from put_sym_InrD [OF this] Short show ?thesis by simp
  next
    case Long
    then have "\<not> near ?lc (clock div 2) tolerance" "near ?lc clock tolerance"
      by (simp_all add: classify_def split: if_splits)
    with ok i edge fits obtain s2 where "put_sym ?v ?s1 = Inr s2" "put_sym ?v s2 = Inr s'"
      by (auto simp: pulse_step_long seq_eq_Inr_iff)
    from put_sym_InrD [OF this(1)] put_sym_InrD [OF this(2)] Long show ?thesis by simp
  next
    case Anomaly
    then have "\<not> near ?lc (clock div 2) tolerance" "\<not> near ?lc clock tolerance"
      by (simp_all add: classify_def split: if_splits)
    with ok i edge fits have "s' = warn PulseWidthWarning ?s1"
      by (simp add: pulse_step_anomaly give_up_def split: if_splits)
    with Anomaly show ?thesis by simp
  qed
qed

lemma pulse_step_flat:
  "pulse_step data clock tolerance i s = Inr s' \<Longrightarrow> data ! (i - 1) = data ! i \<Longrightarrow> s' = s"
  by (auto simp: pulse_step_def fault_def split: if_splits)

lemma pulse_loop_stream:
  assumes "pulse_loop data clock tolerance i s = Inr s'" and "0 < i"
  shows "symbols s' = symbols s @ pulse_stream clock tolerance (transitions data i (lastval s)) \<and>
         bitidx s' = bitidx s + length (pulse_stream clock tolerance (transitions data i (lastval s))) \<and>
         warnings s' = warnings s + anomalies clock tolerance (transitions data i (lastval s)) \<and>
         printed s' = printed s @
           replicate (anomalies clock tolerance (transitions data i (lastval s))) PulseWidthWarning"
  using assms
proof (induction data clock tolerance i s rule: pulse_loop.induct)
  case (1 data clock tolerance i s)
  show ?case
  proof (cases "i < length data")
    case False
    with "1.prems" show ?thesis by simp
  next
    case True
    with "1.prems" obtain s1 where s1: "pulse_step data clock tolerance i s = Inr s1"
      and rest: "pulse_loop data clock tolerance (Suc i) s1 = Inr s'"
      by (auto simp: pulse_loop_step seq_eq_Inr_iff)
    note IH = "1.IH" [OF True s1 rest]
    show ?thesis
    proof (cases "data ! (i - 1) = data ! i")
      case flat: True
      with pulse_step_flat [OF s1] IH True show ?thesis
        by (simp add: transitions_flat)
    next
      case edge: False
      from pulse_step_edge [OF s1 "1.prems"(2) edge] IH True edge show ?thesis
        by (simp add: transitions_edge replicate_append_same)
    qed
  qed
qed

lemma pulse_step_tail_zero:
  assumes "pulse_step data clock tolerance i s = Inr s'" and "tail_zero s"
  shows "tail_zero s'"
  using assms
  by (auto simp: pulse_step_def Let_def seq_eq_Inr_iff give_up_def fault_def
      split: if_splits dest!: tail_zero_put_sym)

lemma pulse_loop_tail_zero:
  assumes "pulse_loop data clock tolerance i s = Inr s'" and "tail_zero s"
  shows "tail_zero s'"
  using assms
proof (induction data clock tolerance i s rule: pulse_loop.induct)
  case (1 data clock tolerance i s)
  show ?case
  proof (cases "i < length data")
    case False
    with "1.prems" show ?thesis by simp
  next
    case True
    with "1.prems" obtain s1 where s1: "pulse_step data clock tolerance i s = Inr s1"
      and rest: "pulse_loop data clock tolerance (Suc i) s1 = Inr s'"
      by (auto simp: pulse_loop_step seq_eq_Inr_iff)
    from "1.IH" [OF True s1 rest pulse_step_tail_zero [OF s1 "1.prems"(2)]] show ?thesis .
  qed
qed

lemma pulse_step_InlD:
  assumes "pulse_step data clock tolerance i s = Inl (why, l)" and "0 < i"
  shows "why = OutOfBounds \<or>
         data ! (i - 1) \<noteq> data ! i \<and>
           (why = ClockWrong \<and> length data * 2 div clock + 8 < bitidx s \<or>
            why = TooManyDetection \<and> classify clock tolerance (i - lastval s) = Anomaly \<and>
              10 \<le> warnings s)"
  using assms
  by (auto simp: pulse_step_def Let_def classify_def seq_eq_Inl_iff give_up_def fault_def
      put_sym_def split: if_splits)

lemma pulse_step_total:
  assumes inv: "pulse_inv data i s" and i: "0 < i" "i < length data"
    and fits: "bitidx s + length (pulse_stream clock (clock div 4) (transitions data i (lastval s)))
               \<le> length data * 2 div clock + 8"
    and few: "warnings s + anomalies clock (clock div 4) (transitions data i (lastval s)) \<le> 10"
  shows "\<exists>s1. pulse_step data clock (clock div 4) i s = Inr s1"
proof (cases "pulse_step data clock (clock div 4) i s")
  case (Inr s1)
  then show ?thesis by blast
next
  case (Inl e)
  obtain why l where e: "e = (why, l)" by (cases e)
  from pulse_step_inv [OF inv i, of clock] Inl e have "why \<noteq> OutOfBounds" by auto
  with pulse_step_InlD [OF Inl [unfolded e] i(1)]
  have edge: "data ! (i - 1) \<noteq> data ! i"
    and "length data * 2 div clock + 8 < bitidx s \<or>
         classify clock (clock div 4) (i - lastval s) = Anomaly \<and> 10 \<le> warnings s"
    by auto
  with fits few i(2) show ?thesis
    by (auto simp: transitions_edge)
qed

lemma pulse_loop_total:
  assumes "pulse_inv data i s" and "0 < i" and "i \<le> length data"
    and "bitidx s + length (pulse_stream clock (clock div 4) (transitions data i (lastval s)))
         \<le> length data * 2 div clock + 8"
    and "warnings s + anomalies clock (clock div 4) (transitions data i (lastval s)) \<le> 10"
  shows "\<exists>s'. pulse_loop data clock (clock div 4) i s = Inr s'"
  using assms
proof (induction data clock "clock div 4" i s rule: pulse_loop.induct)
  case (1 data clock i s)
  show ?case
  proof (cases "i < length data")
    case False
    then show ?thesis by simp
  next
    case True
    from pulse_step_total [OF "1.prems"(1,2) True "1.prems"(4,5)]
    obtain s1 where s1: "pulse_step data clock (clock div 4) i s = Inr s1" by blast
    from pulse_step_inv [OF "1.prems"(1,2) True, of clock] s1
    have inv1: "pulse_inv data (Suc i) s1" by simp
    have "bitidx s1 + length (pulse_stream clock (clock div 4) (transitions data (Suc i) (lastval s1)))
            \<le> length data * 2 div clock + 8 \<and>
          warnings s1 + anomalies clock (clock div 4) (transitions data (Suc i) (lastval s1)) \<le> 10"
    proof (cases "data ! (i - 1) = data ! i")
      case flat: True
      with pulse_step_flat [OF s1] "1.prems"(4,5) True show ?thesis
        by (simp add: transitions_flat)
    next
      case edge: False
      from pulse_step_edge [OF s1 "1.prems"(2) edge] "1.prems"(4,5) True edge show ?thesis
        by (simp add: transitions_edge split: if_splits)
    qed
    with "1.hyps" [OF True s1 inv1] True s1 show ?thesis
      by (simp add: pulse_loop_step)
  qed
qed

text \<open>The loop only appends to the messages, also when it gives up.\<close>

lemma pulse_step_log:
  "\<exists>rest. log_of (pulse_step data clock tolerance i s) = printed s @ rest"
  by (simp add: pulse_step_def Let_def log_of_seq)

lemma pulse_loop_log:
  "\<exists>rest. log_of (pulse_loop data clock tolerance i s) = printed s @ rest"
proof (induction data clock tolerance i s rule: pulse_loop.induct)
  case (1 data clock tolerance i s)
  show ?case
  proof (cases "i < length data")
    case True
    with 1 pulse_step_log [of data clock tolerance i s] show ?thesis
      by (simp add: pulse_loop_step log_of_seq)
  qed simp
qed

section \<open>Properties of the demodulation by pulse widths\<close>

text \<open>
  C5: The pulse loop against the list reference. A run of the loop from sample \<open>i\<close>
  that returns has appended to the symbols written so far the symbols of the pulses that
  lie between the transitions of the trace from \<open>i\<close> on (one symbol for a pulse of about
  half a clock, two for a pulse of about a clock, none for any other), has counted one
  warning and printed one message per rejected pulse, and has not touched the decoded
  bits or the length of the buffer.
\<close>

theorem pulse_loop_refines:
  assumes "pulse_loop data clock tolerance i s = Inr s'" and "0 < i"
  shows "symbols s' = symbols s @ pulse_stream clock tolerance (transitions data i (lastval s)) \<and>
         warnings s' = warnings s + anomalies clock tolerance (transitions data i (lastval s)) \<and>
         printed s' = printed s @
           replicate (anomalies clock tolerance (transitions data i (lastval s))) PulseWidthWarning \<and>
         bit2idx s' = bit2idx s \<and> length (bitStream s') = length (bitStream s)"
  using pulse_loop_stream [OF assms] pulse_loop_frame [OF assms(1)] by simp

theorem pulse_loop_refines_witness:
  "\<exists>s'. pulse_loop [1, 1, 0, 0, 1, 1, 0, 0] 4 1 2 ((init_state 8)\<lparr>lastval := 2, bitidx := 1\<rparr>) = Inr s' \<and>
     symbols s' = [0, 0, 1] \<and> warnings s' = 1 \<and> printed s' = [PulseWidthWarning] \<and>
     bit2idx s' = 0 \<and> length (bitStream s') = 8"
proof -
  let ?s = "(init_state 8)\<lparr>lastval := 2, bitidx := 1\<rparr>"
  have "\<exists>s'. pulse_loop [1, 1, 0, 0, 1, 1, 0, 0] 4 1 2 ?s = Inr s'"
    by (simp add: md_defs)
  then obtain s' where s': "pulse_loop [1, 1, 0, 0, 1, 1, 0, 0] 4 1 2 ?s = Inr s'" ..
  have "pulse_stream 4 1 (transitions [1, 1, 0, 0, 1, 1, 0, 0] 2 2) = [0, 1]"
    and "anomalies 4 1 (transitions [1, 1, 0, 0, 1, 1, 0, 0] 2 2) = 1"
    by (simp_all add: md_defs)
  with pulse_loop_refines [OF s'] s' show ?thesis
    by (simp add: symbols_def)
qed

text \<open>
  C6: The pulse loop stays inside the buffer. From a state in which the buffer is as
  long as the trace and the symbol cursor is at most half of \<^verbatim>\<open>lastval + 1\<close>, no write of
  the loop leaves \<^verbatim>\<open>bitStream\<close>, whatever the clock and the samples are, and at its end
  twice the number of symbols is at most the length of the trace plus one: the cursor
  advances by at most two symbols per pulse, and a pulse that yields two symbols is at
  least four samples long.
\<close>

theorem pulse_loop_in_bounds:
  assumes "pulse_inv data i s" and "0 < i" and "i \<le> length data"
  shows "(\<forall>l. pulse_loop data clock (clock div 4) i s \<noteq> Inl (OutOfBounds, l)) \<and>
         (\<forall>s'. pulse_loop data clock (clock div 4) i s = Inr s' \<longrightarrow>
               0 < bitidx s' \<and> 2 * bitidx s' \<le> length data + 1 \<and>
               length (bitStream s') = length data)"
  using pulse_loop_inv [OF assms, of clock] by (auto simp: pulse_inv_def)

theorem pulse_loop_in_bounds_witness:
  "pulse_inv [1, 1, 0, 0, 1, 1, 0, 0] 2 ((init_state 8)\<lparr>lastval := 2, bitidx := 1\<rparr>) \<and>
   (\<exists>s'. pulse_loop [1, 1, 0, 0, 1, 1, 0, 0] 4 (4 div 4) 2
            ((init_state 8)\<lparr>lastval := 2, bitidx := 1\<rparr>) = Inr s' \<and>
          2 * bitidx s' \<le> length [1, 1, 0, 0, 1, 1, 0, 0 :: u8] + 1)"
proof -
  let ?s = "(init_state 8)\<lparr>lastval := 2, bitidx := 1\<rparr>"
  have inv: "pulse_inv [1, 1, 0, 0, 1, 1, 0, 0] 2 ?s"
    by (simp add: pulse_inv_def)
  have "\<exists>s'. pulse_loop [1, 1, 0, 0, 1, 1, 0, 0] 4 (4 div 4) 2 ?s = Inr s'"
    by (simp add: md_defs)
  with pulse_loop_in_bounds [OF inv, of 4] inv show ?thesis
    by auto
qed

end
