(* ===== verification/Window_Demod.thy ===== *)
theory Window_Demod
  imports Buffer
begin

text \<open>
  The branch \<^verbatim>\<open>high != 1\<close> of \<^verbatim>\<open>manchester_decode\<close>: the trace is cut into windows of
  \<^verbatim>\<open>clock\<close> samples and the bit toggles at each window that does not show both levels.
  \<open>hit_update\<close> is the body of the inner loop on the three flags \<^verbatim>\<open>hithigh\<close>,
  \<^verbatim>\<open>hitlow\<close> and \<^verbatim>\<open>first\<close>; \<open>window_hits\<close> is the inner loop with its early exit;
  \<open>window_bit\<close> the toggle; \<open>window_loop\<close> the outer loop, which writes one bit per
  window. The references are on lists: \<open>hits_list\<close>, \<open>both_levels\<close>, \<open>window_bits\<close>.
\<close>

section \<open>The loops and their references\<close>

unbundle bit_operations_syntax

definition hit_update :: "nat \<Rightarrow> nat \<Rightarrow> nat \<Rightarrow> bool \<times> bool \<times> bool \<Rightarrow> bool \<times> bool \<times> bool" where
  "hit_update high low x = (\<lambda>(hithigh, hitlow, first).
     (let hithigh1 = (if x = high then True else hithigh);
          hitlow1 = (if x = high then hitlow else if x = low then True else hitlow)
      in if first \<and> (hithigh1 \<or> hitlow1) then (False, False, first)
         else (hithigh1, hitlow1, False)))"

function window_hits ::
  "trace \<Rightarrow> nat \<Rightarrow> nat \<Rightarrow> nat \<Rightarrow> nat \<Rightarrow> nat \<Rightarrow> bool \<times> bool \<times> bool \<Rightarrow> bool \<times> bool" where
  "window_hits data high low clock i j st =
     (if j < clock then
        (case hit_update high low (unat (data ! (i * clock + j))) st of
           (hithigh, hitlow, first) \<Rightarrow>
             if hithigh \<and> hitlow then (hithigh, hitlow)
             else window_hits data high low clock i (Suc j) (hithigh, hitlow, first))
      else (fst st, fst (snd st)))"
  by pat_completeness auto
termination
  by (relation "measure (\<lambda>(data, high, low, clock, i, j, st). clock - j)") auto

declare window_hits.simps [simp del]

definition window_bit :: "trace \<Rightarrow> nat \<Rightarrow> nat \<Rightarrow> nat \<Rightarrow> nat \<Rightarrow> int \<Rightarrow> int" where
  "window_bit data high low clock i b =
     (case window_hits data high low clock i 0 (False, False, True) of
        (hithigh, hitlow) \<Rightarrow> if \<not> hithigh \<or> \<not> hitlow then b XOR 1 else b)"

definition out_byte :: "int \<Rightarrow> int \<Rightarrow> u8" where
  "out_byte invert b = of_int (b XOR invert)"

function window_loop ::
  "trace \<Rightarrow> nat \<Rightarrow> nat \<Rightarrow> nat \<Rightarrow> int \<Rightarrow> nat \<Rightarrow> int \<Rightarrow> dec_state \<Rightarrow> dec_state result" where
  "window_loop data high low clock invert i b s =
     (if i < length data div clock then
        (let b' = window_bit data high low clock i b
         in seq (put_bit (out_byte invert b') s)
              (window_loop data high low clock invert (Suc i) b'))
      else Inr s)"
  by pat_completeness auto
termination
  by (relation "measure (\<lambda>(data, high, low, clock, invert, i, b, s). length data div clock - i)") auto

declare window_loop.simps [simp del]

fun hits_list :: "nat \<Rightarrow> nat \<Rightarrow> nat list \<Rightarrow> bool \<times> bool \<times> bool \<Rightarrow> bool \<times> bool" where
  "hits_list high low [] st = (fst st, fst (snd st))"
| "hits_list high low (x # xs) st =
     (case hit_update high low x st of
        (hithigh, hitlow, first) \<Rightarrow>
          if hithigh \<and> hitlow then (hithigh, hitlow)
          else hits_list high low xs (hithigh, hitlow, first))"

definition window :: "trace \<Rightarrow> nat \<Rightarrow> nat \<Rightarrow> nat list" where
  "window data clock i = map unat (take clock (drop (i * clock) data))"

definition both_levels :: "nat \<Rightarrow> nat \<Rightarrow> nat list \<Rightarrow> bool" where
  "both_levels high low w \<longleftrightarrow>
     (let r = dropWhile (\<lambda>x. x = high \<or> x = low) w in high \<in> set r \<and> low \<in> set r)"

primrec window_bits :: "trace \<Rightarrow> nat \<Rightarrow> nat \<Rightarrow> nat \<Rightarrow> int \<Rightarrow> nat list \<Rightarrow> int list" where
  "window_bits data high low clock b [] = []"
| "window_bits data high low clock b (i # is) =
     (let b' = window_bit data high low clock i b
      in b' # window_bits data high low clock b' is)"

declare hit_update_def [md_defs] window_hits.simps [md_defs] window_bit_def [md_defs]
  out_byte_def [md_defs] window_loop.simps [md_defs] window_def [md_defs] both_levels_def [md_defs]

lemma window_index_in_bounds:
  assumes "i < length data div clock" and "j < clock"
  shows "i * clock + j < length data"
proof -
  from assms have "Suc i * clock \<le> (length data div clock) * clock"
    by (intro mult_le_mono1) simp
  also have "\<dots> \<le> length data" by simp
  finally show ?thesis using assms(2) by simp
qed

lemma window_hits_list:
  assumes "i < length data div clock" and "j \<le> clock"
  shows "window_hits data high low clock i j st =
         hits_list high low (map unat (take (clock - j) (drop (i * clock + j) data))) st"
  using assms
proof (induction data high low clock i j st rule: window_hits.induct)
  case (1 data high low clock i j st)
  show ?case
  proof (cases "j < clock")
    case False
    with "1.prems" show ?thesis
      by (simp add: window_hits.simps)
  next
    case True
    with "1.prems" have inb: "i * clock + j < length data"
      by (simp add: window_index_in_bounds)
    from True have "clock - j = Suc (clock - Suc j)" by simp
    with inb have sl: "take (clock - j) (drop (i * clock + j) data) =
        data ! (i * clock + j) # take (clock - Suc j) (drop (i * clock + Suc j) data)"
      by (simp add: Cons_nth_drop_Suc [symmetric])
    show ?thesis
    proof (cases "hit_update high low (unat (data ! (i * clock + j))) st")
      case (fields hh hl f)
      with True "1.IH" [OF True fields [symmetric] refl] "1.prems" show ?thesis
        by (subst window_hits.simps) (auto simp: sl)
    qed
  qed
qed

lemma window_hits_window:
  "i < length data div clock \<Longrightarrow>
   window_hits data high low clock i 0 st = hits_list high low (window data clock i) st"
  by (simp add: window_hits_list window_def)

lemma hit_update_armed:
  "hit_update high low x (hh, hl, False) =
     (hh \<or> x = high, hl \<or> (x \<noteq> high \<and> x = low), False)"
  by (auto simp: hit_update_def Let_def)

lemma hit_update_first:
  "hit_update high low x (False, False, True) = (False, False, x = high \<or> x = low)"
  by (auto simp: hit_update_def Let_def)

lemma hits_list_armed:
  "high \<noteq> low \<Longrightarrow>
   (fst (hits_list high low xs (hh, hl, False)) \<and> snd (hits_list high low xs (hh, hl, False))) \<longleftrightarrow>
   (hh \<or> high \<in> set xs) \<and> (hl \<or> low \<in> set xs)"
proof (induction xs arbitrary: hh hl)
  case Nil
  show ?case by simp
next
  case (Cons x xs)
  from Cons.prems Cons.IH [OF Cons.prems, of "hh \<or> x = high" "hl \<or> (x \<noteq> high \<and> x = low)"]
  show ?case
    by (auto simp: hit_update_armed)
qed

lemma hits_list_first:
  "high \<noteq> low \<Longrightarrow>
   (fst (hits_list high low xs (False, False, True)) \<and>
    snd (hits_list high low xs (False, False, True))) \<longleftrightarrow> both_levels high low xs"
proof (induction xs)
  case Nil
  show ?case by (simp add: both_levels_def)
next
  case (Cons x xs)
  show ?case
  proof (cases "x = high \<or> x = low")
    case True
    with Cons show ?thesis
      by (simp add: hit_update_first both_levels_def)
  next
    case False
    with Cons.prems hits_list_armed [of high low xs False False] show ?thesis
      by (simp add: hit_update_first both_levels_def)
  qed
qed

lemma window_bit_spec:
  assumes "high \<noteq> low" and "i < length data div clock"
  shows "window_bit data high low clock i b =
         (if both_levels high low (window data clock i) then b else b XOR 1)"
proof -
  obtain hh hl where r: "hits_list high low (window data clock i) (False, False, True) = (hh, hl)"
    by (cases "hits_list high low (window data clock i) (False, False, True)")
  with hits_list_first [OF assms(1), of "window data clock i"]
  have "(hh \<and> hl) = both_levels high low (window data clock i)" by simp
  with r assms(2) show ?thesis
    by (auto simp: window_bit_def window_hits_window)
qed

lemma both_levels_two_level:
  "set w \<subseteq> {high, low} \<Longrightarrow> \<not> both_levels high low w"
proof -
  assume "set w \<subseteq> {high, low}"
  then have d: "dropWhile (\<lambda>x. x = high \<or> x = low) w = []"
    by auto
  show ?thesis
    unfolding both_levels_def Let_def d by simp
qed

lemma window_bit_two_level:
  assumes "high \<noteq> low" and "i < length data div clock"
    and "set (window data clock i) \<subseteq> {high, low}"
  shows "window_bit data high low clock i b = b XOR 1"
  using assms by (simp add: window_bit_spec both_levels_two_level)

lemma window_loop_done [simp]:
  "length data div clock \<le> i \<Longrightarrow> window_loop data high low clock invert i b s = Inr s"
  by (simp add: window_loop.simps)

lemma window_loop_step:
  "i < length data div clock \<Longrightarrow>
   window_loop data high low clock invert i b s =
   seq (put_bit (out_byte invert (window_bit data high low clock i b)) s)
     (window_loop data high low clock invert (Suc i) (window_bit data high low clock i b))"
  by (subst window_loop.simps) (simp add: Let_def)

lemma window_loop_run:
  assumes "bit2idx s + (length data div clock - i) \<le> length (bitStream s)"
  shows "\<exists>s'. window_loop data high low clock invert i b s = Inr s' \<and>
           wrote_bits s (map (out_byte invert)
             (window_bits data high low clock b [i..<length data div clock])) s'"
  using assms
proof (induction data high low clock invert i b s rule: window_loop.induct)
  case (1 data high low clock invert i b s)
  let ?n = "length data div clock"
  show ?case
  proof (cases "i < ?n")
    case False
    then show ?thesis by simp
  next
    case True
    let ?b = "window_bit data high low clock i b"
    let ?s = "s\<lparr>bitStream := (bitStream s)[bit2idx s := out_byte invert ?b],
                bit2idx := Suc (bit2idx s)\<rparr>"
    from True "1.prems" have room: "bit2idx s < length (bitStream s)" by simp
    then have w1: "wrote_bits s [out_byte invert ?b] ?s"
      by (rule wrote_bits_put_bit)
    from True "1.prems" have "bit2idx ?s + (?n - Suc i) \<le> length (bitStream ?s)"
      by simp
    from "1.IH" [OF True refl _ this] room
    obtain s' where run: "window_loop data high low clock invert (Suc i) ?b ?s = Inr s'"
      and w2: "wrote_bits ?s (map (out_byte invert)
                 (window_bits data high low clock ?b [Suc i..<?n])) s'"
      by auto
    from True have "[i..<?n] = i # [Suc i..<?n]"
      by (simp add: upt_conv_Cons)
    with wrote_bits_trans [OF w1 w2] run room True show ?thesis
      by (simp add: window_loop_step Let_def)
  qed
qed

lemma length_window_bits [simp]: "length (window_bits data high low clock b is) = length is"
  by (induction "is" arbitrary: b) (simp_all add: Let_def)

lemma window_bit_01:
  "b \<in> {0, 1} \<Longrightarrow> window_bit data high low clock i b \<in> {0, 1}"
  by (auto simp: window_bit_def split: prod.splits)

lemma window_bits_01:
  "b \<in> {0, 1} \<Longrightarrow> set (window_bits data high low clock b is) \<subseteq> {0, 1}"
proof (induction "is" arbitrary: b)
  case Nil
  show ?case by simp
next
  case (Cons i "is")
  from window_bit_01 [OF Cons.prems] Cons.IH [OF window_bit_01 [OF Cons.prems]]
  show ?case by (simp add: Let_def)
qed

lemma out_byte_invert:
  "b \<in> {0, 1} \<Longrightarrow> out_byte 1 b = out_byte 0 b XOR 1"
  by (auto simp: out_byte_def)

lemma out_byte_plain: "b \<in> {0, 1} \<Longrightarrow> out_byte 0 b \<in> {0, 1}"
  by (auto simp: out_byte_def)

primrec toggles :: "int \<Rightarrow> nat \<Rightarrow> int list" where
  "toggles b 0 = []"
| "toggles b (Suc n) = (b XOR 1) # toggles (b XOR 1) n"

lemma window_bits_two_level:
  assumes "high \<noteq> low"
    and "\<forall>i\<in>set is. i < length data div clock \<and> set (window data clock i) \<subseteq> {high, low}"
  shows "window_bits data high low clock b is = toggles b (length is)"
  using assms(2)
proof (induction "is" arbitrary: b)
  case Nil
  show ?case by simp
next
  case (Cons i "is")
  from Cons.prems have "window_bit data high low clock i b = b XOR 1"
    by (intro window_bit_two_level [OF assms(1)]) simp_all
  with Cons show ?case by (simp add: Let_def)
qed

lemma window_two_level:
  assumes "set (map unat data) \<subseteq> {high, low}"
  shows "set (window data clock i) \<subseteq> {high, low}"
proof -
  have "set (take clock (drop (i * clock) data)) \<subseteq> set data"
    by (meson set_drop_subset set_take_subset subset_trans)
  then have "set (window data clock i) \<subseteq> set (map unat data)"
    by (auto simp: window_def)
  with assms show ?thesis by blast
qed

section \<open>Properties of the demodulation by windows\<close>

text \<open>
  The branch on lists: the bit toggles at every window that does not hold both levels
  after its leading run of samples at a level.
\<close>

primrec toggle_spec :: "nat \<Rightarrow> nat \<Rightarrow> int \<Rightarrow> nat list list \<Rightarrow> int list" where
  "toggle_spec high low b [] = []"
| "toggle_spec high low b (w # ws) =
     (let b' = (if both_levels high low w then b else b XOR 1)
      in b' # toggle_spec high low b' ws)"

lemma window_bits_spec:
  assumes "high \<noteq> low" and "\<forall>i \<in> set is. i < length data div clock"
  shows "window_bits data high low clock b is =
         toggle_spec high low b (map (window data clock) is)"
  using assms(2)
  by (induction "is" arbitrary: b) (simp_all add: window_bit_spec [OF assms(1)] Let_def)

text \<open>
  C7: The loop over the windows, with its inner loop that stops early and its flag
  \<^verbatim>\<open>first\<close>, computes the list function \<open>toggle_spec\<close> over the windows of \<^verbatim>\<open>clock\<close>
  samples from window \<open>i\<close> on: when the buffer has room for one bit per window it
  returns, having appended these bits (exclusive-or \<^verbatim>\<open>invert\<close>) to the decoded bits and
  changed nothing else.
\<close>

theorem window_loop_refines:
  assumes "high \<noteq> low"
    and "bit2idx s + (length data div clock - i) \<le> length (bitStream s)"
  shows "\<exists>s'. window_loop data high low clock invert i b s = Inr s' \<and>
           wrote_bits s (map (out_byte invert) (toggle_spec high low b
             (map (window data clock) [i..<length data div clock]))) s'"
  using window_loop_run [OF assms(2), of high low invert b]
    window_bits_spec [OF assms(1), of "[i..<length data div clock]" data clock b]
  by simp

theorem window_loop_refines_witness:
  "\<exists>s'. window_loop [0, 9, 0, 9, 0, 9, 0, 9] 9 0 2 0 2 0 (init_state 8) = Inr s' \<and>
     wrote_bits (init_state 8) (map (out_byte 0) (toggle_spec 9 0 0
       (map (window [0, 9, 0, 9, 0, 9, 0, 9] 2) [2..<length [0, 9, 0, 9, 0, 9, 0, 9 :: u8] div 2]))) s'"
  using window_loop_refines [of 9 0 "init_state 8" "[0, 9, 0, 9, 0, 9, 0, 9]" 2 2 0 0]
  by simp

end
