(* ===== verification/Pairing.thy ===== *)
theory Pairing
  imports Window_Demod
begin

text \<open>
  The last loop of \<^verbatim>\<open>manchester_decode\<close>, which reads the symbols two at a time and
  writes the decoded bits to the front of the same array. \<open>pair_step\<close> is the body of
  the loop at index \<open>i\<close> and returns the next index; \<open>emit_bit\<close> and \<open>resync\<close> are its
  two outcomes, the second with the early return after more than ten warnings;
  \<open>pair_loop\<close> is the loop. The reference \<open>pair_syms\<close> pairs a list of symbols;
  \<open>unread\<close> is the part of the array that the loop has still to read, \<open>paired\<close> what a
  run of the loop changes.
\<close>

section \<open>The loop and its reference\<close>

definition resync :: "nat \<Rightarrow> dec_state \<Rightarrow> (nat \<times> dec_state) result" where
  "resync i s =
     (let s1 = warn UnsyncWarning s in
      if warnings s1 > 10 then give_up TooManyDecode TooManyDecodeErrors s1
      else Inr (Suc i + 2, s1))"

definition emit_bit :: "int \<Rightarrow> int \<Rightarrow> nat \<Rightarrow> dec_state \<Rightarrow> (nat \<times> dec_state) result" where
  "emit_bit invert b i s = seq (put_bit (out_byte invert b) s) (\<lambda>s'. Inr (i + 2, s'))"

definition pair_step :: "int \<Rightarrow> nat \<Rightarrow> dec_state \<Rightarrow> (nat \<times> dec_state) result" where
  "pair_step invert i s =
     seq (get_sym i s) (\<lambda>x.
       if x = 0 then seq (get_sym (i + 1) s) (\<lambda>y. if y = 1 then emit_bit invert 1 i s else resync i s)
       else if x = 1 then seq (get_sym (i + 1) s) (\<lambda>y. if y = 0 then emit_bit invert 0 i s else resync i s)
       else resync i s)"

lemma pair_step_advances:
  "pair_step invert i s = Inr (i', s') \<Longrightarrow> i < i' \<and> bitidx s' = bitidx s"
  by (auto simp: pair_step_def resync_def emit_bit_def seq_eq_Inr_iff put_bit_Inr_iff give_up_def
      Let_def split: if_splits)

function pair_loop :: "int \<Rightarrow> nat \<Rightarrow> dec_state \<Rightarrow> dec_state result" where
  "pair_loop invert i s =
     (if i < bitidx s
      then seq (pair_step invert i s) (\<lambda>(i', s'). pair_loop invert i' s')
      else Inr s)"
  by pat_completeness auto
termination
proof (relation "measure (\<lambda>(invert, i, s). bitidx s - i)")
  show "wf (measure (\<lambda>(invert, i, s). bitidx s - i))" by simp
next
  fix invert :: int and i :: nat and s :: dec_state and a x y
  assume "i < bitidx s" and "pair_step invert i s = Inr a" and "(x, y) = a"
  with pair_step_advances [of invert i s x y]
  show "((invert, x, y), (invert, i, s)) \<in> measure (\<lambda>(invert, i, s). bitidx s - i)"
    by auto
qed

declare pair_loop.simps [simp del]

fun pair_syms :: "u8 list \<Rightarrow> int option list" where
  "pair_syms (x # y # zs) =
     (if x = 0 \<and> y = 1 then Some 1 # pair_syms zs
      else if x = 1 \<and> y = 0 then Some 0 # pair_syms zs
      else None # pair_syms (drop 1 zs))"
| "pair_syms zs = []"

definition paired_bits :: "u8 list \<Rightarrow> int list" where
  "paired_bits xs = [b. Some b \<leftarrow> pair_syms xs]"

definition resyncs :: "u8 list \<Rightarrow> nat" where
  "resyncs xs = length (filter (\<lambda>e. e = None) (pair_syms xs))"

definition unread :: "nat \<Rightarrow> dec_state \<Rightarrow> u8 list" where
  "unread i s = take (Suc (bitidx s) - i) (drop i (bitStream s))"

declare resync_def [md_defs] emit_bit_def [md_defs] pair_step_def [md_defs]
  pair_loop.simps [md_defs] paired_bits_def [md_defs] resyncs_def [md_defs] unread_def [md_defs]

lemma pair_loop_done [simp]: "bitidx s \<le> i \<Longrightarrow> pair_loop invert i s = Inr s"
  by (simp add: pair_loop.simps)

lemma pair_loop_step:
  "i < bitidx s \<Longrightarrow>
   pair_loop invert i s = seq (pair_step invert i s) (\<lambda>(i', s'). pair_loop invert i' s')"
  by (subst pair_loop.simps) simp

lemma unread_Cons:
  assumes "i < bitidx s" and "bitidx s < length (bitStream s)"
  shows "unread i s = bitStream s ! i # bitStream s ! Suc i #
           take (bitidx s - Suc i) (drop (i + 2) (bitStream s))"
proof -
  from assms have "Suc (bitidx s) - i = Suc (Suc (bitidx s - Suc i))" by simp
  moreover from assms have "drop i (bitStream s) =
      bitStream s ! i # bitStream s ! Suc i # drop (i + 2) (bitStream s)"
    by (simp add: Cons_nth_drop_Suc)
  ultimately show ?thesis by (simp add: unread_def)
qed

lemma unread_short [simp]: "bitidx s \<le> i \<Longrightarrow> pair_syms (unread i s) = []"
proof -
  assume "bitidx s \<le> i"
  then have "length (unread i s) \<le> 1" by (simp add: unread_def)
  then show ?thesis
    by (cases "unread i s" rule: pair_syms.cases) simp_all
qed

definition paired :: "dec_state \<Rightarrow> int \<Rightarrow> int option list \<Rightarrow> dec_state \<Rightarrow> bool" where
  "paired s invert evs s' \<longleftrightarrow>
     decoded s' = decoded s @ map (out_byte invert) [b. Some b \<leftarrow> evs] \<and>
     bit2idx s' = bit2idx s + length [b. Some b \<leftarrow> evs] \<and>
     warnings s' = warnings s + length (filter (\<lambda>e. e = None) evs) \<and>
     printed s' = printed s @ replicate (length (filter (\<lambda>e. e = None) evs)) UnsyncWarning \<and>
     bitidx s' = bitidx s \<and> lastval s' = lastval s \<and>
     length (bitStream s') = length (bitStream s)"

definition pair_spec :: "int \<Rightarrow> nat \<Rightarrow> dec_state \<Rightarrow> dec_state result \<Rightarrow> bool" where
  "pair_spec invert i s r \<longleftrightarrow>
     (if warnings s + resyncs (unread i s) \<le> 10
      then \<exists>s'. r = Inr s' \<and> paired s invert (pair_syms (unread i s)) s'
      else r = Inl (TooManyDecode,
             printed s @ replicate (11 - warnings s) UnsyncWarning @ [TooManyDecodeErrors]))"

lemma paired_refl [simp]: "paired s invert [] s"
  by (simp add: paired_def)

lemma paired_emit:
  assumes "put_bit (out_byte invert b) s = Inr s1" and "paired s1 invert evs s'"
  shows "paired s invert (Some b # evs) s'"
  using put_bit_InrD [OF assms(1)] assms(2) by (simp add: paired_def)

lemma paired_resync:
  assumes "paired (warn UnsyncWarning s) invert evs s'"
  shows "paired s invert (None # evs) s'"
  using assms by (simp add: paired_def replicate_append_same)

lemma pair_syms_one [simp]: "pair_syms (0 # 1 # zs) = Some 1 # pair_syms zs"
  by simp

lemma pair_syms_zero [simp]: "pair_syms (1 # 0 # zs) = Some 0 # pair_syms zs"
  by simp

lemma pair_syms_bad [simp]:
  "\<not> (x = 0 \<and> y = 1) \<Longrightarrow> \<not> (x = 1 \<and> y = 0) \<Longrightarrow>
   pair_syms (x # y # zs) = None # pair_syms (drop 1 zs)"
  by auto

declare pair_syms.simps(1) [simp del]

lemma resyncs_simps:
  "resyncs (0 # 1 # zs) = resyncs zs" "resyncs (1 # 0 # zs) = resyncs zs"
  "\<not> (x = 0 \<and> y = 1) \<Longrightarrow> \<not> (x = 1 \<and> y = 0) \<Longrightarrow> resyncs (x # y # zs) = Suc (resyncs (drop 1 zs))"
  by (simp_all add: resyncs_def)

lemma pair_step_one:
  assumes "Suc i < length (bitStream s)" "bitStream s ! i = 0" "bitStream s ! Suc i = 1"
  shows "pair_step invert i s = emit_bit invert 1 i s"
  using assms by (simp add: pair_step_def)

lemma pair_step_zero:
  assumes "Suc i < length (bitStream s)" "bitStream s ! i = 1" "bitStream s ! Suc i = 0"
  shows "pair_step invert i s = emit_bit invert 0 i s"
  using assms by (simp add: pair_step_def)

lemma pair_step_bad:
  assumes "Suc i < length (bitStream s)"
    and "\<not> (bitStream s ! i = 0 \<and> bitStream s ! Suc i = 1)"
    and "\<not> (bitStream s ! i = 1 \<and> bitStream s ! Suc i = 0)"
  shows "pair_step invert i s = resync i s"
  using assms by (auto simp: pair_step_def)

lemma unread_after_emit:
  assumes "put_bit v s = Inr s1" and "bit2idx s < i + 2"
  shows "unread (Suc (Suc i)) s1 = take (bitidx s - Suc i) (drop (i + 2) (bitStream s))"
  using assms by (auto simp: put_bit_Inr_iff unread_def)

lemma unread_after_resync:
  "unread (i + 3) (warn UnsyncWarning s) = drop 1 (take (bitidx s - Suc i) (drop (i + 2) (bitStream s)))"
  by (simp add: unread_def drop_take eval_nat_numeral)

lemma pair_spec_emit:
  assumes step: "pair_step invert i s = emit_bit invert b i s"
    and syms: "pair_syms (unread i s) = Some b # pair_syms (unread (i + 2) s1)"
    and put: "put_bit (out_byte invert b) s = Inr s1"
    and i: "i < bitidx s"
    and IH: "pair_spec invert (i + 2) s1 (pair_loop invert (i + 2) s1)"
  shows "pair_spec invert i s (pair_loop invert i s)"
proof -
  from step put i have loop: "pair_loop invert i s = pair_loop invert (i + 2) s1"
    by (simp add: pair_loop_step emit_bit_def)
  from put_bit_InrD [OF put] have w: "warnings s1 = warnings s" "printed s1 = printed s"
    by simp_all
  from syms have r: "resyncs (unread i s) = resyncs (unread (i + 2) s1)"
    by (simp add: resyncs_def)
  have e: "paired s invert (Some b # evs) s'" if "paired s1 invert evs s'" for s' evs
    using that by (rule paired_emit [OF put])
  from IH show ?thesis
    unfolding pair_spec_def loop r syms
    by (simp add: w split: if_splits) (auto dest: e)
qed

lemma pair_spec_resync:
  assumes step: "pair_step invert i s = resync i s"
    and syms: "pair_syms (unread i s) = None # pair_syms (unread (i + 3) (warn UnsyncWarning s))"
    and i: "i < bitidx s" and w: "warnings s \<le> 10"
    and IH: "warnings s < 10 \<Longrightarrow>
             pair_spec invert (i + 3) (warn UnsyncWarning s)
               (pair_loop invert (i + 3) (warn UnsyncWarning s))"
  shows "pair_spec invert i s (pair_loop invert i s)"
proof (cases "warnings s < 10")
  case True
  with step i have loop: "pair_loop invert i s = pair_loop invert (i + 3) (warn UnsyncWarning s)"
    by (simp add: pair_loop_step resync_def Let_def eval_nat_numeral)
  from syms have r: "resyncs (unread i s) = Suc (resyncs (unread (i + 3) (warn UnsyncWarning s)))"
    by (simp add: resyncs_def)
  from True have eleven: "11 - warnings s = Suc (10 - warnings s)"
    by simp
  from IH [OF True] True show ?thesis
    unfolding pair_spec_def loop r syms
    by (simp add: eleven replicate_append_same split: if_splits) (auto dest: paired_resync)
next
  case False
  with w have ten: "warnings s = 10" by simp
  with step i have "pair_loop invert i s =
      Inl (TooManyDecode, printed s @ [UnsyncWarning, TooManyDecodeErrors])"
    by (simp add: pair_loop_step resync_def Let_def give_up_def)
  moreover from syms have "0 < resyncs (unread i s)"
    by (simp add: resyncs_def)
  ultimately show ?thesis
    using ten by (simp add: pair_spec_def)
qed

text \<open>The two cases of one round of the loop, given the claim for the rounds that follow.\<close>

lemma pair_round_emit:
  assumes pre: "2 * bit2idx s \<le> i" "bitidx s < length (bitStream s)" "warnings s \<le> 10"
    and i: "i < bitidx s"
    and step: "pair_step invert i s = emit_bit invert b i s"
    and syms: "pair_syms (unread i s) =
        Some b # pair_syms (take (bitidx s - Suc i) (drop (i + 2) (bitStream s)))"
    and IH: "\<And>s1. pair_step invert i s = Inr (i + 2, s1) \<Longrightarrow> 2 * bit2idx s1 \<le> i + 2 \<Longrightarrow>
        bitidx s1 < length (bitStream s1) \<Longrightarrow> warnings s1 \<le> 10 \<Longrightarrow>
        pair_spec invert (i + 2) s1 (pair_loop invert (i + 2) s1)"
  shows "pair_spec invert i s (pair_loop invert i s)"
proof -
  from pre i obtain s1 where put: "put_bit (out_byte invert b) s = Inr s1"
    by simp
  from put_bit_InrD [OF put] pre have pre1: "2 * bit2idx s1 \<le> i + 2"
    "bitidx s1 < length (bitStream s1)" "warnings s1 \<le> 10"
    by simp_all
  from pre i have before: "bit2idx s < i + 2"
    by simp
  from step put have "pair_step invert i s = Inr (i + 2, s1)"
    by (simp add: emit_bit_def)
  from IH [OF this pre1] syms show ?thesis
    by (intro pair_spec_emit [OF step _ put i]) (simp_all add: unread_after_emit [OF put before])
qed

lemma pair_round_resync:
  assumes pre: "2 * bit2idx s \<le> i" "bitidx s < length (bitStream s)" "warnings s \<le> 10"
    and i: "i < bitidx s"
    and step: "pair_step invert i s = resync i s"
    and syms: "pair_syms (unread i s) =
        None # pair_syms (drop 1 (take (bitidx s - Suc i) (drop (i + 2) (bitStream s))))"
    and IH: "\<And>s1. pair_step invert i s = Inr (i + 3, s1) \<Longrightarrow> 2 * bit2idx s1 \<le> i + 3 \<Longrightarrow>
        bitidx s1 < length (bitStream s1) \<Longrightarrow> warnings s1 \<le> 10 \<Longrightarrow>
        pair_spec invert (i + 3) s1 (pair_loop invert (i + 3) s1)"
  shows "pair_spec invert i s (pair_loop invert i s)"
proof -
  have "pair_spec invert (i + 3) (warn UnsyncWarning s)
          (pair_loop invert (i + 3) (warn UnsyncWarning s))" if "warnings s < 10"
  proof -
    from that step have "pair_step invert i s = Inr (i + 3, warn UnsyncWarning s)"
      by (simp add: resync_def Let_def eval_nat_numeral)
    from IH [OF this] that pre show ?thesis
      by simp
  qed
  with syms show ?thesis
    by (intro pair_spec_resync [OF step _ i pre(3)]) (simp_all add: unread_after_resync)
qed

lemma pair_loop_refines:
  assumes "2 * bit2idx s \<le> i" and "bitidx s < length (bitStream s)" and "warnings s \<le> 10"
  shows "pair_spec invert i s (pair_loop invert i s)"
  using assms
proof (induction invert i s rule: pair_loop.induct)
  case (1 invert i s)
  show ?case
  proof (cases "i < bitidx s")
    case False
    with "1.prems" show ?thesis
      by (simp add: pair_spec_def resyncs_def)
  next
    case True
    let ?x = "bitStream s ! i" and ?y = "bitStream s ! Suc i"
    from True "1.prems" have xs: "unread i s =
        ?x # ?y # take (bitidx s - Suc i) (drop (i + 2) (bitStream s))"
      by (simp add: unread_Cons)
    from True "1.prems" have inb: "Suc i < length (bitStream s)"
      by simp
    note IH = "1.IH" [OF True _ refl]
    consider (one) "?x = 0" "?y = 1" | (zero) "?x = 1" "?y = 0"
      | (bad) "\<not> (?x = 0 \<and> ?y = 1)" "\<not> (?x = 1 \<and> ?y = 0)"
      by blast
    then show ?thesis
    proof cases
      case one
      with inb show ?thesis
        by (intro pair_round_emit [OF "1.prems" True, of _ 1] IH) (simp_all add: pair_step_one xs)
    next
      case zero
      with inb show ?thesis
        by (intro pair_round_emit [OF "1.prems" True, of _ 0] IH) (simp_all add: pair_step_zero xs)
    next
      case bad
      with inb show ?thesis
        by (intro pair_round_resync [OF "1.prems" True] IH) (simp_all add: pair_step_bad xs)
    qed
  qed
qed

lemma length_pair_syms: "2 * length (pair_syms xs) \<le> length xs"
  by (induction xs rule: pair_syms.induct) (auto simp: pair_syms.simps(1))

lemma length_paired_bits: "2 * length (paired_bits xs) \<le> length xs"
proof -
  have "length (paired_bits xs) \<le> length (pair_syms xs)"
    unfolding paired_bits_def by (rule length_somes_le)
  with length_pair_syms [of xs] show ?thesis by simp
qed

lemma pair_loop_success:
  assumes "2 * bit2idx s \<le> i" and "bitidx s < length (bitStream s)" and "warnings s \<le> 10"
    and "pair_loop invert i s = Inr s'"
  shows "paired s invert (pair_syms (unread i s)) s' \<and> warnings s' \<le> 10"
  using pair_loop_refines [OF assms(1-3), of invert] assms(4)
  by (auto simp: pair_spec_def paired_def resyncs_def split: if_splits)

lemma pair_loop_abort:
  assumes "2 * bit2idx s \<le> i" and "bitidx s < length (bitStream s)" and "warnings s \<le> 10"
    and "pair_loop invert i s = Inl (why, l)"
  shows "why = TooManyDecode \<and> 10 < warnings s + resyncs (unread i s) \<and>
         l = printed s @ replicate (11 - warnings s) UnsyncWarning @ [TooManyDecodeErrors]"
  using pair_loop_refines [OF assms(1-3), of invert] assms(4)
  by (auto simp: pair_spec_def split: if_splits)

lemma pair_loop_log:
  assumes "2 * bit2idx s \<le> i" and "bitidx s < length (bitStream s)" and "warnings s \<le> 10"
  shows "\<exists>rest. log_of (pair_loop invert i s) = printed s @ rest"
proof (cases "pair_loop invert i s")
  case (Inl e)
  with pair_loop_abort [OF assms, of invert "fst e" "snd e"] show ?thesis
    by (cases e) simp
next
  case (Inr s')
  with pair_loop_success [OF assms Inr] show ?thesis
    by (simp add: paired_def)
qed

lemma paired_count:
  assumes "paired s invert (pair_syms (unread i s)) s'"
  shows "2 * (bit2idx s' - bit2idx s) \<le> Suc (bitidx s) - i"
proof -
  have "length [b. Some b \<leftarrow> pair_syms (unread i s)] \<le> length (pair_syms (unread i s))"
    by (rule length_somes_le)
  with length_pair_syms [of "unread i s"]
  have "2 * length [b. Some b \<leftarrow> pair_syms (unread i s)] \<le> length (unread i s)"
    by simp
  also have "\<dots> \<le> Suc (bitidx s) - i" by (simp add: unread_def)
  finally show ?thesis using assms by (simp add: paired_def)
qed

lemma pair_loop_total:
  assumes "2 * bit2idx s \<le> i" and "bitidx s < length (bitStream s)"
    and "warnings s + resyncs (unread i s) \<le> 10"
  shows "\<exists>s'. pair_loop invert i s = Inr s' \<and> paired s invert (pair_syms (unread i s)) s'"
proof -
  from assms(3) have "warnings s \<le> 10" by simp
  from pair_loop_refines [OF assms(1,2) this, of invert] assms(3) show ?thesis
    by (simp add: pair_spec_def)
qed

section \<open>Properties of the pairing loop\<close>

text \<open>
  C4: The pairing loop against the list reference. Started at \<open>i\<close> with the decoded
  bits behind the read position (\<open>2 * bit2idx \<le> i\<close>), it reads the symbols from \<open>i\<close>
  up to and including the one at \<^verbatim>\<open>bitidx\<close> two at a time: the pair 0,1 gives the bit 1,
  the pair 1,0 the bit 0, any other pair a warning and a skip of three symbols. When
  the warnings stay at ten or fewer it returns with exactly the bits of \<open>paired_bits\<close>
  appended to the decoded bits, although it writes them into the array that it reads;
  otherwise it stops at the eleventh warning with the messages printed so far.
\<close>

theorem pair_loop_correct:
  assumes "2 * bit2idx s \<le> i" and "bitidx s < length (bitStream s)" and "warnings s \<le> 10"
  shows "if warnings s + resyncs (unread i s) \<le> 10
         then \<exists>s'. pair_loop invert i s = Inr s' \<and>
                decoded s' = decoded s @ map (out_byte invert) (paired_bits (unread i s)) \<and>
                warnings s' = warnings s + resyncs (unread i s) \<and>
                printed s' = printed s @ replicate (resyncs (unread i s)) UnsyncWarning
         else pair_loop invert i s = Inl (TooManyDecode,
                printed s @ replicate (11 - warnings s) UnsyncWarning @ [TooManyDecodeErrors])"
  using pair_loop_refines [OF assms, of invert]
  by (auto simp: pair_spec_def paired_def paired_bits_def resyncs_def)

theorem pair_loop_correct_witness:
  "\<exists>s'. pair_loop 0 0 ((init_state 8)\<lparr>bitStream := [0, 0, 1, 0, 1, 1, 0, 0], bitidx := 6\<rparr>) = Inr s' \<and>
     decoded s' = [1, 0] \<and> warnings s' = 1 \<and> printed s' = [UnsyncWarning]"
proof -
  let ?s = "(init_state 8)\<lparr>bitStream := [0, 0, 1, 0, 1, 1, 0, 0], bitidx := 6\<rparr>"
  have "unread 0 ?s = [0, 0, 1, 0, 1, 1, 0]"
    by (simp add: unread_def)
  then have "paired_bits (unread 0 ?s) = [1, 0]" "resyncs (unread 0 ?s) = 1"
    by (simp_all add: paired_bits_def resyncs_def)
  with pair_loop_correct [of ?s 0 0] show ?thesis
    by (simp add: decoded_def out_byte_def)
qed

end
