(* ===== verification/Decoder.thy ===== *)
theory Decoder
  imports Clock Transition Pulse_Demod Pairing
begin

text \<open>
  \<^verbatim>\<open>manchester_decode\<close> as a whole. \<open>demodulate\<close> is the body of the function up to the
  end of the pairing loop: the stages in the order of the code, with \<^verbatim>\<open>invert\<close> as a
  parameter. \<open>finish\<close> is the end of the function: the \<^verbatim>\<open>memcpy\<close> of the decoded bits
  to \<^verbatim>\<open>dataout\<close> and the return of their number as a \<^verbatim>\<open>uint8_t\<close>, or the value 0 of an
  early return. The result \<open>md_return\<close> holds the returned byte, the caller's buffer
  after the call and the messages printed. \<open>clock_of\<close>, \<open>start_of\<close> and
  \<open>entry_state\<close> name what the stages before the branch compute.
\<close>

section \<open>The function\<close>

record md_return =
  ret :: u8
  dataout :: "u8 list"
  logged :: "log_msg list"

definition demodulate :: "trace \<Rightarrow> int \<Rightarrow> dec_state result" where
  "demodulate data invert =
     (let bytelength = length data;
          s0 = init_state bytelength;
          (high, low) = levels data;
          clock = detect_clock data high;
          tolerance = clock div 4;
          s1 = emit (DetectedClock clock) s0;
          (i, lv) = first_transition data high low;
          s2 = s1\<lparr>lastval := lv\<rparr>
      in seq (if high \<noteq> 1 then window_loop data high low clock invert i 0 s2
              else pulse_demod data clock tolerance i s2)
           (pair_loop invert 0))"

definition finish :: "u8 list \<Rightarrow> dec_state result \<Rightarrow> (abort \<times> log_msg list) + md_return" where
  "finish out r =
     (case r of
        Inl (OutOfBounds, l) \<Rightarrow> Inl (OutOfBounds, l)
      | Inl (why, l) \<Rightarrow> Inr \<lparr>ret = 0, dataout = out, logged = l\<rparr>
      | Inr s \<Rightarrow>
          if bit2idx s \<le> length out \<and> bit2idx s \<le> length (bitStream s)
          then Inr \<lparr>ret = of_nat (bit2idx s),
                    dataout = take (bit2idx s) (bitStream s) @ drop (bit2idx s) out,
                    logged = printed s\<rparr>
          else Inl (OutOfBounds, printed s))"

definition manchester_decode :: "trace \<Rightarrow> u8 list \<Rightarrow> (abort \<times> log_msg list) + md_return" where
  "manchester_decode data out = finish out (demodulate data 0)"


declare demodulate_def [md_defs] finish_def [md_defs] manchester_decode_def [md_defs] Let_def [md_defs]

definition clock_of :: "trace \<Rightarrow> nat" where
  "clock_of data = detect_clock data (high_of data)"

definition start_of :: "trace \<Rightarrow> nat" where
  "start_of data = fst (first_transition data (high_of data) (low_of data))"

definition entry_state :: "trace \<Rightarrow> dec_state" where
  "entry_state data =
     (emit (DetectedClock (clock_of data)) (init_state (length data)))
       \<lparr>lastval := snd (first_transition data (high_of data) (low_of data))\<rparr>"

declare clock_of_def [md_defs] start_of_def [md_defs] entry_state_def [md_defs]

lemma entry_state_simps [simp]:
  "bitStream (entry_state data) = replicate (length data) 0"
  "bitidx (entry_state data) = 0" "bit2idx (entry_state data) = 0"
  "warnings (entry_state data) = 0"
  "printed (entry_state data) = [DetectedClock (clock_of data)]"
  by (simp_all add: entry_state_def)

lemma demodulate_unfold:
  "demodulate data invert =
     seq (if high_of data \<noteq> 1
          then window_loop data (high_of data) (low_of data) (clock_of data) invert
                 (start_of data) 0 (entry_state data)
          else pulse_demod data (clock_of data) (clock_of data div 4) (start_of data)
                 (entry_state data))
       (pair_loop invert 0)"
  by (simp add: demodulate_def Let_def high_of_def low_of_def clock_of_def start_of_def
      entry_state_def split: prod.splits)

lemma clock_of_pos [simp]: "0 < clock_of data"
  by (simp add: clock_of_def detect_clock_pos)

lemma start_of_le: "start_of data \<le> length data"
  by (simp add: start_of_def first_transition_le)

lemma lastval_entry:
  "lastval (entry_state data) = (if start_of data < length data then start_of data else 0)"
  using first_transition_low [of data "high_of data" "low_of data"]
    first_transition_none [of data "high_of data" "low_of data"] start_of_le [of data]
  by (auto simp: entry_state_def start_of_def)

lemma start_of_pos: "start_of data < length data \<Longrightarrow> 0 < start_of data"
  using first_transition_after_high [of data "high_of data" "low_of data"] high_of_ge1 [of data]
  by (simp add: start_of_def low_of_zero)

definition window_output :: "trace \<Rightarrow> int \<Rightarrow> u8 list" where
  "window_output data invert =
     map (out_byte invert)
       (window_bits data (high_of data) (low_of data) (clock_of data) 0
          [start_of data..<length data div clock_of data])"

lemma demodulate_window:
  assumes "high_of data \<noteq> 1"
  shows "\<exists>s. demodulate data invert = Inr s \<and>
             wrote_bits (entry_state data) (window_output data invert) s"
proof -
  have "length data div clock_of data - start_of data \<le> length data"
    by (rule le_trans [OF diff_le_self div_le_dividend])
  then have "bit2idx (entry_state data) + (length data div clock_of data - start_of data)
             \<le> length (bitStream (entry_state data))"
    by simp
  from window_loop_run [OF this, of "high_of data" "low_of data" invert 0]
  obtain s where run: "window_loop data (high_of data) (low_of data) (clock_of data) invert
        (start_of data) 0 (entry_state data) = Inr s"
    and w: "wrote_bits (entry_state data) (window_output data invert) s"
    by (auto simp: window_output_def)
  from w have "bitidx s = 0" by (simp add: wrote_bits_def)
  with run w assms show ?thesis
    by (simp add: demodulate_unfold)
qed

lemma pulse_demod_entry:
  assumes "2 \<le> length data"
  shows "(\<forall>l. pulse_demod data (clock_of data) (clock_of data div 4) (start_of data)
               (entry_state data) \<noteq> Inl (OutOfBounds, l)) \<and>
         (\<forall>s. pulse_demod data (clock_of data) (clock_of data div 4) (start_of data)
               (entry_state data) = Inr s \<longrightarrow>
              bit2idx s = 0 \<and> bitidx s < length (bitStream s) \<and> warnings s \<le> 10 \<and>
              length (bitStream s) = length data)"
proof (cases "start_of data < length data")
  case False
  with start_of_le [of data] assms show ?thesis
    by (simp add: pulse_demod_def)
next
  case True
  let ?s = "(entry_state data)\<lparr>bitidx := 1\<rparr>"
  from True start_of_pos [OF True] have inv: "pulse_inv data (start_of data) ?s"
    by (simp add: pulse_inv_def lastval_entry)
  note safe = pulse_loop_inv [OF inv start_of_pos [OF True] start_of_le, of "clock_of data"]
  have "bit2idx s = 0 \<and> bitidx s < length (bitStream s) \<and> warnings s \<le> 10 \<and>
        length (bitStream s) = length data"
    if ok: "pulse_loop data (clock_of data) (clock_of data div 4) (start_of data) ?s = Inr s" for s
  proof -
    from safe ok have "pulse_inv data (length data) s" by simp
    with assms have "bitidx s < length (bitStream s)" "length (bitStream s) = length data"
      by (auto simp: pulse_inv_def)
    with pulse_loop_frame [OF ok] show ?thesis by simp
  qed
  with safe show ?thesis
    unfolding pulse_demod_def by blast
qed

lemma demodulate_binary:
  assumes bin: "high_of data = 1" and len: "2 \<le> length data"
  shows "(\<forall>l. demodulate data invert \<noteq> Inl (OutOfBounds, l)) \<and>
         (\<forall>s. demodulate data invert = Inr s \<longrightarrow>
              2 * bit2idx s \<le> length data \<and> length (bitStream s) = length data \<and>
              warnings s \<le> 10)"
proof (cases "pulse_demod data (clock_of data) (clock_of data div 4) (start_of data)
                (entry_state data)")
  case (Inl e)
  with pulse_demod_entry [OF len] bin show ?thesis
    by (cases e) (auto simp: demodulate_unfold)
next
  case (Inr s1)
  with pulse_demod_entry [OF len] have s1: "2 * bit2idx s1 \<le> 0" "bitidx s1 < length (bitStream s1)"
    "warnings s1 \<le> 10" "length (bitStream s1) = length data"
    by simp_all
  from Inr bin have d: "demodulate data invert = pair_loop invert 0 s1"
    by (simp add: demodulate_unfold)
  have "2 * bit2idx s \<le> length data \<and> length (bitStream s) = length data \<and> warnings s \<le> 10"
    if ok: "pair_loop invert 0 s1 = Inr s" for s
  proof -
    from pair_loop_success [OF s1(1-3) ok]
    have p: "paired s1 invert (pair_syms (unread 0 s1)) s" and w: "warnings s \<le> 10"
      by simp_all
    from paired_count [OF p] s1 p w show ?thesis
      by (simp add: paired_def)
  qed
  moreover have "pair_loop invert 0 s1 \<noteq> Inl (OutOfBounds, l)" for l
    using pair_loop_abort [OF s1(1-3), of invert OutOfBounds l] by auto
  ultimately show ?thesis
    unfolding d by blast
qed

lemma demodulate_safe:
  assumes "2 \<le> length data"
  shows "(\<forall>l. demodulate data invert \<noteq> Inl (OutOfBounds, l)) \<and>
         (\<forall>s. demodulate data invert = Inr s \<longrightarrow>
              bit2idx s \<le> length data \<and> length (bitStream s) = length data)"
proof (cases "high_of data = 1")
  case True
  from demodulate_binary [OF True assms, of invert] show ?thesis by auto
next
  case False
  from demodulate_window [OF False, of invert] obtain s where
    s: "demodulate data invert = Inr s"
    and w: "wrote_bits (entry_state data) (window_output data invert) s"
    by blast
  have "length (window_output data invert) \<le> length data"
    unfolding window_output_def
    by (simp add: le_trans [OF diff_le_self div_le_dividend])
  with s w show ?thesis
    by (simp add: wrote_bits_def)
qed

text \<open>
  C1: Memory safety of \<^verbatim>\<open>manchester_decode\<close>. For a trace of at least two samples and a
  caller's buffer at least as long as the trace, no read or write of the function leaves
  \<^verbatim>\<open>data\<close>, \<^verbatim>\<open>bitStream\<close> or \<^verbatim>\<open>dataout\<close>, on either branch and whatever the samples are:
  the model, in which every access to \<^verbatim>\<open>bitStream\<close> and \<^verbatim>\<open>dataout\<close> and the read of
  \<^verbatim>\<open>data[i-1]\<close> are checked, never yields \<open>OutOfBounds\<close> and the function returns. The
  other reads of \<^verbatim>\<open>data\<close> are not checked in the model: they stand under the loop tests
  \<^verbatim>\<open>i < bytelength\<close>, or at the index \<^verbatim>\<open>i*clock+j\<close> of the window loops, which lies
  inside by \<open>window_index_in_bounds\<close>.
\<close>

theorem decode_memory_safe:
  assumes "2 \<le> length data" and "length data \<le> length out"
  shows "\<exists>r. manchester_decode data out = Inr r"
proof (cases "demodulate data 0")
  case (Inl e)
  with demodulate_safe [OF assms(1), of 0] show ?thesis
    by (cases e; cases "fst e") (auto simp: manchester_decode_def finish_def)
next
  case (Inr s)
  with demodulate_safe [OF assms(1), of 0] assms(2) show ?thesis
    by (simp add: manchester_decode_def finish_def)
qed

theorem decode_memory_safe_witness:
  "\<exists>r. manchester_decode [1, 1, 0, 0, 1, 1, 0, 0, 1, 1, 0, 0]
         [7, 7, 7, 7, 7, 7, 7, 7, 7, 7, 7, 7] = Inr r"
  using decode_memory_safe [of "[1, 1, 0, 0, 1, 1, 0, 0, 1, 1, 0, 0]"
      "[7, 7, 7, 7, 7, 7, 7, 7, 7, 7, 7, 7]"]
  by simp

declare window_output_def [md_defs]

lemma length_window_output:
  "length (window_output data invert) = length data div clock_of data - start_of data"
  by (simp add: window_output_def)

lemma finish_window:
  assumes "high_of data \<noteq> 1" and "length data \<le> length out"
  shows "finish out (demodulate data invert) =
         Inr \<lparr>ret = of_nat (length (window_output data invert)),
              dataout = window_output data invert @ drop (length (window_output data invert)) out,
              logged = [DetectedClock (clock_of data)]\<rparr>"
proof -
  from demodulate_window [OF assms(1), of invert] obtain s where
    s: "demodulate data invert = Inr s"
    and w: "wrote_bits (entry_state data) (window_output data invert) s"
    by blast
  have n: "length (window_output data invert) \<le> length data"
    by (simp add: length_window_output le_trans [OF diff_le_self div_le_dividend])
  from w have "take (bit2idx s) (bitStream s) = window_output data invert"
    and "bit2idx s = length (window_output data invert)"
    and "length (bitStream s) = length data" and "printed s = [DetectedClock (clock_of data)]"
    by (auto simp: wrote_bits_def decoded_def)
  with s n assms(2) show ?thesis
    by (simp add: finish_def decoded_def)
qed

text \<open>
  C3: The result on the branch \<^verbatim>\<open>high != 1\<close>. The function returns the number of windows
  from the index of the first transition to \<^verbatim>\<open>len / clock\<close>, truncated to a byte; it writes
  one bit per window to the front of \<^verbatim>\<open>dataout\<close> and leaves the rest of it alone; it
  prints the clock and nothing else. This branch has no abort.
\<close>

theorem decode_window_result:
  assumes "high_of data \<noteq> 1" and "length data \<le> length out"
  shows "manchester_decode data out =
         Inr \<lparr>ret = of_nat (length data div clock_of data - start_of data),
              dataout = window_output data 0 @ drop (length (window_output data 0)) out,
              logged = [DetectedClock (clock_of data)]\<rparr>"
  using finish_window [OF assms, of 0]
  by (simp add: manchester_decode_def length_window_output)

theorem decode_window_result_witness:
  "manchester_decode [0, 9, 0, 9, 0, 9, 0, 9] [7, 7, 7, 7, 7, 7, 7, 7] =
     Inr \<lparr>ret = 2, dataout = [1, 0, 7, 7, 7, 7, 7, 7], logged = [DetectedClock 2]\<rparr>"
  using decode_window_result [of "[0, 9, 0, 9, 0, 9, 0, 9]" "[7, 7, 7, 7, 7, 7, 7, 7]"]
  by (simp add: md_defs)

text \<open>
  C13: On the branch \<^verbatim>\<open>high != 1\<close>, a trace whose samples are all \<^verbatim>\<open>high\<close> or 0 decodes to
  the alternating bits 1, 0, 1, 0, ... whatever it encodes: the flag \<^verbatim>\<open>first\<close> is cleared
  only by a sample that is neither level, so no window of such a trace counts as having
  both levels and every window toggles the bit.
\<close>

theorem decode_two_level_alternates:
  assumes "high_of data \<noteq> 1" and "set (map unat data) \<subseteq> {high_of data, 0}"
  shows "window_output data invert =
         map (out_byte invert) (toggles 0 (length data div clock_of data - start_of data))"
proof -
  from assms(1) high_of_ge1 [of data] have "high_of data \<noteq> low_of data"
    by (simp add: low_of_zero)
  moreover have "\<forall>i\<in>set [start_of data..<length data div clock_of data].
      i < length data div clock_of data \<and>
      set (window data (clock_of data) i) \<subseteq> {high_of data, low_of data}"
    using assms(2) by (simp add: window_two_level low_of_zero)
  ultimately show ?thesis
    by (simp add: window_output_def window_bits_two_level)
qed

theorem decode_two_level_alternates_witness:
  "window_output [0, 9, 0, 9, 0, 9, 0, 9, 0, 9] 0 = [1, 0, 1]"
  using decode_two_level_alternates [of "[0, 9, 0, 9, 0, 9, 0, 9, 0, 9]" 0]
  by (simp add: md_defs)

definition binary_pulses :: "trace \<Rightarrow> (nat \<times> u8) list" where
  "binary_pulses data = transitions data (start_of data) (start_of data)"

definition binary_symbols :: "trace \<Rightarrow> u8 list" where
  "binary_symbols data =
     0 # pulse_stream (clock_of data) (clock_of data div 4) (binary_pulses data) @ [0]"

definition binary_anomalies :: "trace \<Rightarrow> nat" where
  "binary_anomalies data = anomalies (clock_of data) (clock_of data div 4) (binary_pulses data)"

declare binary_pulses_def [md_defs] binary_symbols_def [md_defs] binary_anomalies_def [md_defs]

lemma transitions_entry:
  "transitions data (start_of data) (lastval (entry_state data)) = binary_pulses data"
  using start_of_le [of data] by (auto simp: lastval_entry binary_pulses_def)

lemma pulse_demod_result:
  assumes len: "2 \<le> length data"
    and ok: "pulse_demod data (clock_of data) (clock_of data div 4) (start_of data)
               (entry_state data) = Inr s"
  shows "unread 0 s = binary_symbols data" and "warnings s = binary_anomalies data"
    and "printed s = DetectedClock (clock_of data) #
           replicate (binary_anomalies data) PulseWidthWarning"
proof -
  let ?s = "(entry_state data)\<lparr>bitidx := 1\<rparr>"
  from ok have run: "pulse_loop data (clock_of data) (clock_of data div 4) (start_of data) ?s = Inr s"
    by (simp add: pulse_demod_def)
  have pos: "0 < start_of data"
    using start_of_pos [of data] start_of_le [of data] len by (cases "start_of data < length data") auto
  have tz: "tail_zero s"
    by (rule pulse_loop_tail_zero [OF run]) (simp add: entry_state_def tail_zero_def)
  from len have "symbols ?s = [0]"
    by (cases "length data") (simp_all add: symbols_def)
  with pulse_loop_stream [OF run pos]
  have sy: "symbols s = 0 # pulse_stream (clock_of data) (clock_of data div 4) (binary_pulses data)"
    and w: "warnings s = binary_anomalies data"
    and p: "printed s = DetectedClock (clock_of data) #
           replicate (binary_anomalies data) PulseWidthWarning"
    by (simp_all add: transitions_entry binary_anomalies_def)
  from w show "warnings s = binary_anomalies data" .
  from p show "printed s = DetectedClock (clock_of data) #
           replicate (binary_anomalies data) PulseWidthWarning" .
  from pulse_demod_entry [OF len] ok have b: "bitidx s < length (bitStream s)" by simp
  then have "unread 0 s = symbols s @ [bitStream s ! bitidx s]"
    by (simp add: unread_def symbols_def take_Suc_conv_app_nth)
  with tail_zero_next [OF tz b] sy show "unread 0 s = binary_symbols data"
    by (simp add: binary_symbols_def)
qed

lemma demodulate_binary_sound:
  assumes bin: "high_of data = 1" and len: "2 \<le> length data"
    and ok: "demodulate data invert = Inr s"
  shows "decoded s = map (out_byte invert) (paired_bits (binary_symbols data)) \<and>
         warnings s = binary_anomalies data + resyncs (binary_symbols data) \<and>
         printed s = DetectedClock (clock_of data) #
           replicate (binary_anomalies data) PulseWidthWarning @
           replicate (resyncs (binary_symbols data)) UnsyncWarning"
proof -
  from ok bin obtain s1 where
    p: "pulse_demod data (clock_of data) (clock_of data div 4) (start_of data)
          (entry_state data) = Inr s1"
    and q: "pair_loop invert 0 s1 = Inr s"
    by (auto simp: demodulate_unfold seq_eq_Inr_iff)
  from pulse_demod_entry [OF len] p have s1: "2 * bit2idx s1 \<le> 0"
    "bitidx s1 < length (bitStream s1)" "warnings s1 \<le> 10"
    by simp_all
  from pair_loop_success [OF s1 q] have "paired s1 invert (pair_syms (unread 0 s1)) s" ..
  with pulse_demod_result [OF len p] s1(1) show ?thesis
    by (auto simp: paired_def paired_bits_def resyncs_def decoded_def)
qed

lemma classify_zero [simp]: "classify clock (clock div 4) 0 = Anomaly"
  by (auto simp: classify_def near_iff)

text \<open>
  The first round of the pulse loop: it runs at the sample found as first transition,
  where \<^verbatim>\<open>lastval\<close> was just set, so the width it measures is 0, which is neither about
  half a clock nor about a clock.
\<close>

lemma first_pulse:
  assumes "high_of data = 1" and "start_of data < length data"
  shows "pulse_demod data (clock_of data) (clock_of data div 4) (start_of data) (entry_state data) =
         pulse_loop data (clock_of data) (clock_of data div 4) (Suc (start_of data))
           (warn PulseWidthWarning ((entry_state data)\<lparr>bitidx := 1, lastval := start_of data\<rparr>))"
proof -
  let ?s = "(entry_state data)\<lparr>bitidx := 1\<rparr>"
  from assms first_transition_after_high [of data "high_of data" "low_of data"]
    first_transition_low [of data "high_of data" "low_of data"]
  have "unat (data ! (start_of data - 1)) \<noteq> 0" "unat (data ! start_of data) = 0"
    by (simp_all add: start_of_def low_of_zero)
  then have edge: "data ! (start_of data - 1) \<noteq> data ! start_of data"
    by auto
  have "\<not> near 0 (clock_of data div 2) (clock_of data div 4)"
    "\<not> near 0 (clock_of data) (clock_of data div 4)"
    by (auto simp: near_iff)
  with edge assms(2) start_of_pos [OF assms(2)]
  have "pulse_step data (clock_of data) (clock_of data div 4) (start_of data) ?s =
        Inr (warn PulseWidthWarning (?s\<lparr>lastval := start_of data\<rparr>))"
    by (subst pulse_step_anomaly) (simp_all add: lastval_entry)
  with assms(2) show ?thesis
    unfolding pulse_demod_def by (subst pulse_loop_step) simp_all
qed

lemma binary_log:
  assumes bin: "high_of data = 1" and tr: "start_of data < length data"
  shows "\<exists>rest. log_of (demodulate data invert) =
           DetectedClock (clock_of data) # PulseWidthWarning # rest"
proof -
  let ?s1 = "warn PulseWidthWarning ((entry_state data)\<lparr>bitidx := 1, lastval := start_of data\<rparr>)"
  let ?p = "pulse_loop data (clock_of data) (clock_of data div 4) (Suc (start_of data)) ?s1"
  from start_of_pos [OF tr] tr have len: "2 \<le> length data"
    by simp
  note p = first_pulse [OF bin tr]
  from pulse_loop_log [of data "clock_of data" "clock_of data div 4" "Suc (start_of data)" ?s1]
  have l: "\<exists>rest. log_of ?p = [DetectedClock (clock_of data), PulseWidthWarning] @ rest"
    by simp
  have "\<exists>rest. log_of (pair_loop invert 0 s) = printed s @ rest" if "?p = Inr s" for s
    using pulse_demod_entry [OF len] that p by (intro pair_loop_log) simp_all
  from log_of_seq [OF l this] bin p show ?thesis
    by (simp add: demodulate_unfold)
qed

lemma finish_abort:
  "why \<noteq> OutOfBounds \<Longrightarrow>
   finish out (Inl (why, l)) = Inr \<lparr>ret = 0, dataout = out, logged = l\<rparr>"
  by (cases why) (simp_all add: finish_def)

lemma finish_fault [simp]: "finish out (Inl (OutOfBounds, l)) = Inl (OutOfBounds, l)"
  by (simp add: finish_def)

lemma finish_ok:
  "bit2idx s \<le> length out \<Longrightarrow> bit2idx s \<le> length (bitStream s) \<Longrightarrow>
   finish out (Inr s) =
   Inr \<lparr>ret = of_nat (bit2idx s), dataout = decoded s @ drop (bit2idx s) out,
        logged = printed s\<rparr>"
  by (simp add: finish_def decoded_def)

lemma pulse_demod_total:
  assumes fits: "length (binary_symbols data) \<le> length data * 2 div clock_of data + 9"
    and few: "binary_anomalies data \<le> 10"
  shows "\<exists>s1. pulse_demod data (clock_of data) (clock_of data div 4) (start_of data)
               (entry_state data) = Inr s1"
proof (cases "start_of data < length data")
  case False
  with start_of_le [of data] show ?thesis
    by (simp add: pulse_demod_def)
next
  case True
  let ?s = "(entry_state data)\<lparr>bitidx := 1\<rparr>"
  from True start_of_pos [OF True] have inv: "pulse_inv data (start_of data) ?s"
    by (simp add: pulse_inv_def lastval_entry)
  from fits few show ?thesis
    unfolding pulse_demod_def
    by (intro pulse_loop_total [OF inv start_of_pos [OF True] start_of_le])
       (simp_all add: transitions_entry binary_symbols_def binary_anomalies_def)
qed

text \<open>
  C2: The result on the branch for traces of zeros and ones, as a function of the trace.
  When the symbols of the pulses fit the bound of the clock check and the pulse width
  errors and resynchronisations together are at most ten, the function returns the number
  of bits that pairing finds in \<open>binary_symbols\<close> (a zero, the symbols of the pulses, a
  zero), writes these bits to the front of \<^verbatim>\<open>dataout\<close> and prints the clock, one warning
  per rejected pulse and one per resynchronisation, in this order.
\<close>

theorem decode_binary_succeeds:
  assumes bin: "high_of data = 1" and len: "2 \<le> length data" "length data \<le> length out"
    and fits: "length (binary_symbols data) \<le> length data * 2 div clock_of data + 9"
    and few: "binary_anomalies data + resyncs (binary_symbols data) \<le> 10"
  shows "manchester_decode data out =
         Inr \<lparr>ret = of_nat (length (paired_bits (binary_symbols data))),
              dataout = map (out_byte 0) (paired_bits (binary_symbols data)) @
                        drop (length (paired_bits (binary_symbols data))) out,
              logged = DetectedClock (clock_of data) #
                replicate (binary_anomalies data) PulseWidthWarning @
                replicate (resyncs (binary_symbols data)) UnsyncWarning\<rparr>"
proof -
  let ?c = "clock_of data"
  from pulse_demod_total [OF fits] few obtain s1 where
    p: "pulse_demod data ?c (?c div 4) (start_of data) (entry_state data) = Inr s1"
    by auto
  from pulse_demod_entry [OF len(1)] p have s1: "2 * bit2idx s1 \<le> 0"
    "bitidx s1 < length (bitStream s1)" "length (bitStream s1) = length data"
    by simp_all
  from few pulse_demod_result [OF len(1) p]
  have "warnings s1 + resyncs (unread 0 s1) \<le> 10" by simp
  from pair_loop_total [OF s1(1,2) this, of 0] obtain s where
    q: "pair_loop 0 0 s1 = Inr s" by blast
  with p bin have d: "demodulate data 0 = Inr s"
    by (simp add: demodulate_unfold)
  from demodulate_binary [OF bin len(1), of 0] d len(2)
  have "bit2idx s \<le> length out" "bit2idx s \<le> length (bitStream s)"
    by simp_all
  moreover from demodulate_binary_sound [OF bin len(1) d]
  have "bit2idx s = length (paired_bits (binary_symbols data))"
    using calculation(2) by (metis length_decoded length_map)
  ultimately show ?thesis
    using demodulate_binary_sound [OF bin len(1) d]
    by (simp add: manchester_decode_def d finish_ok)
qed

theorem decode_binary_succeeds_witness:
  "manchester_decode [1, 1, 0, 0, 1, 1, 0, 0, 1, 1, 0, 0] [7, 7, 7, 7, 7, 7, 7, 7, 7, 7, 7, 7] =
     Inr \<lparr>ret = 1, dataout = [1, 7, 7, 7, 7, 7, 7, 7, 7, 7, 7, 7],
          logged = [DetectedClock 4, PulseWidthWarning, UnsyncWarning]\<rparr>"
  using decode_binary_succeeds [of "[1, 1, 0, 0, 1, 1, 0, 0, 1, 1, 0, 0]"
      "[7, 7, 7, 7, 7, 7, 7, 7, 7, 7, 7, 7]"]
  by (simp add: md_defs)

text \<open>
  C14: On the branch for traces of zeros and ones, more than ten pulse width errors and
  resynchronisations together make the function give up: it returns 0 and has written
  nothing to \<^verbatim>\<open>dataout\<close>.
\<close>

theorem decode_anomaly_cap:
  assumes bin: "high_of data = 1" and len: "2 \<le> length data"
    and many: "10 < binary_anomalies data + resyncs (binary_symbols data)"
  shows "\<exists>l. manchester_decode data out = Inr \<lparr>ret = 0, dataout = out, logged = l\<rparr>"
proof (cases "demodulate data 0")
  case (Inr s)
  from demodulate_binary [OF bin len, of 0] Inr have "warnings s \<le> 10" by simp
  with demodulate_binary_sound [OF bin len Inr] many show ?thesis by simp
next
  case (Inl e)
  obtain why l where e: "e = (why, l)" by (cases e)
  with demodulate_binary [OF bin len, of 0] Inl have "why \<noteq> OutOfBounds" by auto
  with Inl e show ?thesis
    by (simp add: manchester_decode_def finish_abort)
qed

theorem decode_anomaly_cap_witness:
  "\<exists>l. manchester_decode [1, 0, 1, 0, 1, 0, 1, 0, 1, 0, 1, 0]
         [7, 7, 7, 7, 7, 7, 7, 7, 7, 7, 7, 7] =
       Inr \<lparr>ret = 0, dataout = [7, 7, 7, 7, 7, 7, 7, 7, 7, 7, 7, 7], logged = l\<rparr>"
  using decode_anomaly_cap [of "[1, 0, 1, 0, 1, 0, 1, 0, 1, 0, 1, 0]"
      "[7, 7, 7, 7, 7, 7, 7, 7, 7, 7, 7, 7]"]
  by (simp add: md_defs)

text \<open>
  C15: A trace of zeros and ones with at most one sample makes the pairing loop read
  outside the array of \<^verbatim>\<open>len\<close> cells, \<^verbatim>\<open>bitStream[0]\<close> for the empty trace and
  \<^verbatim>\<open>bitStream[1]\<close> for a trace of one sample: the model stops with \<open>OutOfBounds\<close> after
  the clock has been printed.
\<close>

theorem decode_short_binary_faults:
  assumes "length data \<le> 1" and "set data \<subseteq> {0, 1}"
  shows "manchester_decode data out = Inl (OutOfBounds, [DetectedClock 65535])"
proof -
  from assms consider "data = []" | "data = [0]" | "data = [1]"
    by (cases data) auto
  then show ?thesis
    by cases (simp_all add: md_defs)
qed

theorem decode_short_binary_faults_witness:
  "manchester_decode [1] [] = Inl (OutOfBounds, [DetectedClock 65535])"
  using decode_short_binary_faults [of "[1]" "[]"] by simp

text \<open>
  C33: On the branch for traces of zeros and ones that have a transition, and with a
  caller's buffer as long as the trace, \<^verbatim>\<open>manchester_decode\<close> returns, and the second
  message it prints, right after the clock, is the warning for a pulse width: the pulse
  loop starts at the sample found as first transition with \<^verbatim>\<open>lastval\<close> set to that same
  index, so the first width it measures is 0 and is rejected, whatever the clock is.
  Every such decode uses one of its ten warnings on it.
\<close>

theorem binary_first_pulse_anomalous:
  assumes "high_of data = 1" and "start_of data < length data" and "length data \<le> length out"
  shows "\<exists>r rest. manchester_decode data out = Inr r \<and>
           logged r = DetectedClock (clock_of data) # PulseWidthWarning # rest"
proof -
  from start_of_pos [OF assms(2)] assms(2) have len: "2 \<le> length data"
    by simp
  from binary_log [OF assms(1,2), of 0] obtain rest where
    l: "log_of (demodulate data 0) = DetectedClock (clock_of data) # PulseWidthWarning # rest"
    by blast
  show ?thesis
  proof (cases "demodulate data 0")
    case (Inl e)
    obtain why l' where e: "e = (why, l')"
      by (cases e)
    with Inl demodulate_safe [OF len, of 0] have "why \<noteq> OutOfBounds"
      by auto
    with Inl e l show ?thesis
      by (simp add: manchester_decode_def finish_abort)
  next
    case (Inr s)
    with demodulate_safe [OF len, of 0] assms(3) l show ?thesis
      by (simp add: manchester_decode_def finish_ok)
  qed
qed

theorem binary_first_pulse_anomalous_witness:
  "\<exists>r rest. manchester_decode [1, 1, 0, 0, 1, 1, 0, 0, 1, 1, 0, 0] [7, 7, 7, 7, 7, 7, 7, 7, 7, 7, 7, 7] = Inr r \<and>
      logged r = DetectedClock 4 # PulseWidthWarning # rest"
  using binary_first_pulse_anomalous [of "[1, 1, 0, 0, 1, 1, 0, 0, 1, 1, 0, 0]"
      "[7, 7, 7, 7, 7, 7, 7, 7, 7, 7, 7, 7]"]
  by (simp add: md_defs)

lemma demodulate_decoded_01:
  assumes "2 \<le> length data" and "demodulate data invert = Inr s"
  shows "\<exists>bs. set bs \<subseteq> {0, 1} \<and> decoded s = map (out_byte invert) bs \<and>
              (\<forall>s'. demodulate data (1 - invert) = Inr s' \<longrightarrow>
                    decoded s' = map (out_byte (1 - invert)) bs)"
proof (cases "high_of data = 1")
  case True
  have "set (paired_bits xs) \<subseteq> {0, 1}" for xs
    unfolding paired_bits_def
    by (induction xs rule: pair_syms.induct) (auto simp: pair_syms.simps(1))
  with demodulate_binary_sound [OF True assms(1)] assms(2) show ?thesis
    by (intro exI [of _ "paired_bits (binary_symbols data)"]) simp
next
  case False
  let ?bs = "window_bits data (high_of data) (low_of data) (clock_of data) 0
          [start_of data..<length data div clock_of data]"
  have "decoded t = map (out_byte inv) ?bs" if "demodulate data inv = Inr t" for inv t
    using demodulate_window [OF False, of inv] that
    by (auto simp: wrote_bits_def window_output_def decoded_def)
  with assms(2) window_bits_01 [of 0 data "high_of data" "low_of data" "clock_of data"]
  show ?thesis
    by (intro exI [of _ ?bs]) auto
qed

text \<open>
  C32: The variable \<^verbatim>\<open>invert\<close> only complements the output. For a trace of at least two
  samples, the bits decoded with \<^verbatim>\<open>invert = 1\<close> are those decoded with \<^verbatim>\<open>invert = 0\<close>, each
  exclusive-or 1, on both branches. (The function itself always runs with
  \<^verbatim>\<open>invert = 0\<close>.)
\<close>

theorem demodulate_polarity:
  assumes "2 \<le> length data" and "demodulate data 0 = Inr s0" and "demodulate data 1 = Inr s1"
  shows "decoded s1 = map (\<lambda>x. x XOR 1) (decoded s0)"
proof -
  from demodulate_decoded_01 [OF assms(1,2)] assms(3) obtain bs where
    "set bs \<subseteq> {0, 1}" "decoded s0 = map (out_byte 0) bs" "decoded s1 = map (out_byte 1) bs"
    by auto
  then show ?thesis
    by (auto simp: out_byte_def)
qed

theorem demodulate_polarity_witness:
  "\<exists>s0 s1. demodulate [0, 9, 0, 9, 0, 9, 0, 9] 0 = Inr s0 \<and>
           demodulate [0, 9, 0, 9, 0, 9, 0, 9] 1 = Inr s1 \<and>
           decoded s1 = map (\<lambda>x. x XOR 1) (decoded s0)"
proof -
  have "high_of [0, 9, 0, 9, 0, 9, 0, 9] \<noteq> 1"
    by (simp add: md_defs)
  from demodulate_window [OF this, of 0] demodulate_window [OF this, of 1]
  obtain s0 s1 where s: "demodulate [0, 9, 0, 9, 0, 9, 0, 9] 0 = Inr s0"
    "demodulate [0, 9, 0, 9, 0, 9, 0, 9] 1 = Inr s1"
    by blast
  from demodulate_polarity [OF _ s] s show ?thesis
    by simp
qed

text \<open>
  C16: The return value is the number of decoded bits modulo 256, because the return
  type is \<^verbatim>\<open>uint8_t\<close> while the count is an \<^verbatim>\<open>int\<close>; the bits themselves are all copied
  to \<^verbatim>\<open>dataout\<close>, the rest of which is not written, and the messages of the result are
  those printed during the decode.
\<close>

theorem decode_return_truncated:
  assumes "manchester_decode data out = Inr r" and "demodulate data 0 = Inr s"
  shows "unat (ret r) = bit2idx s mod 256 \<and> take (bit2idx s) (dataout r) = decoded s \<and>
         drop (bit2idx s) (dataout r) = drop (bit2idx s) out \<and> logged r = printed s"
  using assms
  by (auto simp: manchester_decode_def finish_def decoded_def unat_of_nat split: if_splits)

theorem decode_return_truncated_witness:
  "\<exists>r s. manchester_decode [0, 9, 0, 9, 0, 9, 0, 9] [7, 7, 7, 7, 7, 7, 7, 7] = Inr r \<and>
         demodulate [0, 9, 0, 9, 0, 9, 0, 9] 0 = Inr s \<and>
         unat (ret r) = bit2idx s mod 256 \<and> take (bit2idx s) (dataout r) = decoded s \<and>
         drop (bit2idx s) (dataout r) = drop (bit2idx s) [7, 7, 7, 7, 7, 7, 7, 7] \<and>
         logged r = printed s"
proof -
  have h: "high_of [0, 9, 0, 9, 0, 9, 0, 9] \<noteq> 1"
    by (simp add: md_defs)
  from demodulate_window [OF h, of 0]
  obtain s where s: "demodulate [0, 9, 0, 9, 0, 9, 0, 9] 0 = Inr s"
    by blast
  from finish_window [OF h, of "[7, 7, 7, 7, 7, 7, 7, 7]" 0]
  obtain r where r: "manchester_decode [0, 9, 0, 9, 0, 9, 0, 9] [7, 7, 7, 7, 7, 7, 7, 7] = Inr r"
    by (simp add: manchester_decode_def)
  from decode_return_truncated [OF r s] r s show ?thesis
    by blast
qed

text \<open>Every decoded bit is the byte 0 or the byte 1 when \<^verbatim>\<open>invert\<close> is 0.\<close>

lemma decoded_bits:
  assumes "2 \<le> length data" and "demodulate data 0 = Inr s"
  shows "set (decoded s) \<subseteq> {0, 1}"
proof -
  from demodulate_decoded_01 [OF assms] obtain bs
    where bs: "set bs \<subseteq> {0, 1}" "decoded s = map (out_byte 0) bs"
    by blast
  then show ?thesis
    using out_byte_plain by auto
qed

text \<open>
  C27: The decoded bits are bits. For a trace of at least two samples, a call that
  returns has written only the bytes 0 and 1 to \<^verbatim>\<open>dataout\<close>: for some count \<open>n\<close> within the
  length of the buffer, the return value is \<open>n\<close> modulo 256, the first \<open>n\<close> bytes of
  \<^verbatim>\<open>dataout\<close> are 0 or 1, and what follows them is what the caller had there; the length
  of the buffer does not change.
\<close>

theorem decode_bits_are_bits:
  assumes "2 \<le> length data" and "manchester_decode data out = Inr r"
  shows "\<exists>n\<le>length out. unat (ret r) = n mod 256 \<and> set (take n (dataout r)) \<subseteq> {0, 1} \<and>
           drop n (dataout r) = drop n out \<and> length (dataout r) = length out"
proof (cases "demodulate data 0")
  case (Inl e)
  obtain why l where e: "e = (why, l)"
    by (cases e)
  with Inl assms(2) have "why \<noteq> OutOfBounds"
    by (auto simp: manchester_decode_def)
  with Inl e assms(2) have "r = \<lparr>ret = 0, dataout = out, logged = l\<rparr>"
    by (simp add: manchester_decode_def finish_abort)
  then show ?thesis
    by (intro exI [of _ 0]) simp
next
  case (Inr s)
  with assms(2) have le: "bit2idx s \<le> length out" "bit2idx s \<le> length (bitStream s)"
    by (auto simp: manchester_decode_def finish_def split: if_splits)
  with Inr assms(2) have r: "r = \<lparr>ret = of_nat (bit2idx s),
      dataout = decoded s @ drop (bit2idx s) out, logged = printed s\<rparr>"
    by (simp add: manchester_decode_def finish_ok)
  from le have len: "length (decoded s) = bit2idx s"
    by (simp add: decoded_def)
  with decoded_bits [OF assms(1) Inr] r le show ?thesis
    by (intro exI [of _ "bit2idx s"]) (simp add: unat_of_nat)
qed

theorem decode_bits_are_bits_witness:
  "\<exists>r. manchester_decode [0, 9, 0, 9, 0, 9, 0, 9] [7, 7, 7, 7, 7, 7, 7, 7] = Inr r \<and>
     (\<exists>n\<le>length [7, 7, 7, 7, 7, 7, 7, 7 :: u8]. unat (ret r) = n mod 256 \<and> set (take n (dataout r)) \<subseteq> {0, 1} \<and>
           drop n (dataout r) = drop n [7, 7, 7, 7, 7, 7, 7, 7] \<and>
           length (dataout r) = length [7, 7, 7, 7, 7, 7, 7, 7 :: u8])"
proof -
  have h: "high_of [0, 9, 0, 9, 0, 9, 0, 9] \<noteq> 1"
    by (simp add: md_defs)
  from finish_window [OF h, of "[7, 7, 7, 7, 7, 7, 7, 7]" 0]
  obtain r where r: "manchester_decode [0, 9, 0, 9, 0, 9, 0, 9] [7, 7, 7, 7, 7, 7, 7, 7] = Inr r"
    by (simp add: manchester_decode_def)
  from decode_bits_are_bits [OF _ r] r show ?thesis
    by simp
qed

end
