(* ===== verification/Presenter.thy ===== *)
theory Presenter
  imports MD_Prelude
begin

text \<open>
  The presenter \<^verbatim>\<open>PrintPaddedManchester\<close> of \<^verbatim>\<open>src/client/ui.c\<close>: it reports the number of
  bits and prints them in lines of \<^verbatim>\<open>blocksize\<close> bits. The formatter \<^verbatim>\<open>sprint_bin\<close> is
  not part of the file; the model takes it as the parameter \<open>fmt\<close> and every lemma holds
  for every formatter. The two \<^verbatim>\<open>uint8_t\<close> locals \<^verbatim>\<open>mod\<close> and \<^verbatim>\<open>div\<close> are \<open>8 word\<close>, so
  that their truncation is part of the model. The loop counter and the sizes are natural
  numbers, which is exact as long as \<^verbatim>\<open>len\<close> is below \<open>2^31\<close>. A division by zero and a
  read outside the buffer, which C leaves undefined, end the run with a value of
  \<open>present_fault\<close> and the messages printed before it. The reference \<open>chunks\<close> cuts a
  list into runs of a given length.
\<close>

section \<open>The code\<close>

datatype present_fault = DivideByZero | ReadOutside

type_synonym formatter = "u8 list \<Rightarrow> string"

text \<open>
  A formatter to run the presenter with: one character per bit. The code's own
  \<^verbatim>\<open>sprint_bin\<close> is defined elsewhere.
\<close>

definition sprint_bin :: formatter where
  "sprint_bin w = map (\<lambda>b. if b = 0 then CHR ''0'' else CHR ''1'') w"

text \<open>\<^verbatim>\<open>sprint_bin(bitStream + i, n)\<close> reads \<open>n\<close> cells from cell \<open>i\<close> on.\<close>

definition slice :: "u8 list \<Rightarrow> nat \<Rightarrow> nat \<Rightarrow> present_fault + u8 list" where
  "slice bitStream i n =
     (if i + n \<le> length bitStream then Inr (take n (drop i bitStream)) else Inl ReadOutside)"

text \<open>A fault stops the presenter; what it has printed by then stays printed.\<close>

definition stopped :: "log_msg list \<Rightarrow> present_fault + 'a \<Rightarrow> present_fault \<times> log_msg list + 'a" where
  "stopped out r = (case r of Inl e \<Rightarrow> Inl (e, out) | Inr a \<Rightarrow> Inr a)"

function print_blocks ::
  "formatter \<Rightarrow> u8 list \<Rightarrow> nat \<Rightarrow> nat \<Rightarrow> nat \<Rightarrow> log_msg list \<Rightarrow>
   present_fault \<times> log_msg list + nat \<times> log_msg list"
where
  "print_blocks fmt bitStream blocksize dv i out =
     (if i < dv * blocksize
      then seq (stopped out (slice bitStream i blocksize))
             (\<lambda>w. print_blocks fmt bitStream blocksize dv (i + blocksize) (out @ [BitLine (fmt w)]))
      else Inr (i, out))"
  by pat_completeness auto
termination
  by (relation "measure (\<lambda>(fmt, bitStream, blocksize, dv, i, out). dv * blocksize - i)")
     (auto intro!: diff_less_mono2 elim: contrapos_pp)

declare print_blocks.simps [simp del]

definition PrintPaddedManchester ::
  "formatter \<Rightarrow> u8 list \<Rightarrow> nat \<Rightarrow> nat \<Rightarrow> present_fault \<times> log_msg list + log_msg list"
where
  "PrintPaddedManchester fmt bitStream len blocksize =
     (let out = [BitCount len] in
      if blocksize = 0 then Inl (DivideByZero, out)
      else
        let md = (of_nat (len mod blocksize) :: u8);
            dv = (of_nat (len div blocksize) :: u8)
        in seq (print_blocks fmt bitStream blocksize (unat dv) 0 out)
             (\<lambda>(i, out).
                if 0 < md
                then seq (stopped out (slice bitStream i (unat md)))
                       (\<lambda>w. Inr (out @ [BitLine (fmt w)]))
                else Inr out))"

section \<open>The reference\<close>

function chunks :: "nat \<Rightarrow> 'a list \<Rightarrow> 'a list list" where
  "chunks n xs = (if n = 0 \<or> xs = [] then [] else take n xs # chunks n (drop n xs))"
  by pat_completeness auto
termination
  by (relation "measure (\<lambda>(n, xs). length xs)") auto

declare chunks.simps [simp del]

definition present_spec :: "formatter \<Rightarrow> u8 list \<Rightarrow> nat \<Rightarrow> log_msg list" where
  "present_spec fmt bits blocksize = BitCount (length bits) # map (\<lambda>w. BitLine (fmt w)) (chunks blocksize bits)"

declare sprint_bin_def [md_defs] slice_def [md_defs] stopped_def [md_defs] print_blocks.simps [md_defs] PrintPaddedManchester_def [md_defs]
  chunks.simps [md_defs] present_spec_def [md_defs]

section \<open>Runs of a list\<close>

lemma chunks_Nil [simp]: "chunks n [] = []"
  by (simp add: chunks.simps)

lemma chunks_zero [simp]: "chunks 0 xs = []"
  by (simp add: chunks.simps)

lemma chunks_step: "0 < n \<Longrightarrow> xs \<noteq> [] \<Longrightarrow> chunks n xs = take n xs # chunks n (drop n xs)"
  by (simp add: chunks.simps)

lemma concat_chunks: "0 < n \<Longrightarrow> concat (chunks n xs) = xs"
  by (induction n xs rule: chunks.induct) (simp add: chunks.simps)

lemma div_round_up_step:
  assumes "0 < (n::nat)" and "0 < m"
  shows "(m + (n - 1)) div n = Suc ((m - n + (n - 1)) div n)"
proof -
  from assms have "n \<le> m + (n - 1)"
    by arith
  with assms(1) have "(m + (n - 1)) div n = Suc ((m + (n - 1) - n) div n)"
    by (rule le_div_geq)
  moreover have "(m + (n - 1) - n) div n = (m - n + (n - 1)) div n"
  proof (cases "n \<le> m")
    case True
    then have "m + (n - 1) - n = m - n + (n - 1)"
      by arith
    then show ?thesis
      by (simp only:)
  next
    case False
    with assms have "m + (n - 1) - n < n" and "m - n + (n - 1) < n"
      by arith+
    then show ?thesis
      by (simp only: div_less)
  qed
  ultimately show ?thesis
    by (simp only:)
qed

lemma length_chunks: "0 < n \<Longrightarrow> length (chunks n xs) = (length xs + (n - 1)) div n"
proof (induction n xs rule: chunks.induct)
  case (1 n xs)
  show ?case
  proof (cases "xs = []")
    case True
    with 1(2) show ?thesis by simp
  next
    case False
    have "chunks n xs = take n xs # chunks n (drop n xs)"
      using 1(2) False by (rule chunks_step)
    moreover have "length (chunks n (drop n xs)) = (length xs - n + (n - 1)) div n"
      using 1(1) 1(2) False by simp
    ultimately show ?thesis
      using div_round_up_step [of n "length xs"] 1(2) False by simp
  qed
qed

lemma length_chunks_exact:
  assumes "0 < n" and "length xs = k * n"
  shows "length (chunks n xs) = k"
proof -
  from assms(1) have "n * k \<le> k * n + (n - 1)" and "k * n + (n - 1) < n * Suc k"
    by (simp_all add: mult.commute)
  then have "(k * n + (n - 1)) div n = k"
    by (rule div_nat_eqI)
  with length_chunks [OF assms(1), of xs] assms(2) show ?thesis
    by (simp only:)
qed

lemma chunks_full_lengths:
  "0 < n \<Longrightarrow> w \<in> set (butlast (chunks n xs)) \<Longrightarrow> length w = n"
proof (induction n xs rule: chunks.induct)
  case (1 n xs)
  from 1(3) have ne: "xs \<noteq> []"
    by (cases "xs = []") auto
  then have unf: "chunks n xs = take n xs # chunks n (drop n xs)"
    using 1(2) by (rule_tac chunks_step)
  show ?case
  proof (cases "chunks n (drop n xs) = []")
    case True
    with 1(3) unf show ?thesis by simp
  next
    case False
    then have "drop n xs \<noteq> []"
      by (cases "drop n xs = []") auto
    then have "n \<le> length xs"
      by simp
    with 1(3) unf False consider "w = take n xs" | "w \<in> set (butlast (chunks n (drop n xs)))"
      by auto
    then show ?thesis
      using 1(1) 1(2) ne \<open>n \<le> length xs\<close> by cases auto
  qed
qed

lemma chunks_append_full:
  "0 < n \<Longrightarrow> length xs = k * n \<Longrightarrow> chunks n (xs @ ys) = chunks n xs @ chunks n ys"
proof (induction k arbitrary: xs)
  case 0
  then show ?case by simp
next
  case (Suc k)
  from Suc.prems have len: "length xs = n + k * n" and ne: "xs \<noteq> []"
    by auto
  then have "length (drop n xs) = k * n"
    by simp
  from Suc.IH [OF Suc.prems(1) this] len ne Suc.prems(1) show ?case
    by (simp add: chunks_step [of n xs] chunks_step [of n "xs @ ys"])
qed

section \<open>The loop\<close>

lemma stopped_simps [simp]:
  "stopped out (Inr a) = Inr a" "stopped out (Inl e) = Inl (e, out)"
  by (simp_all add: stopped_def)

lemma print_blocks_done [simp]:
  "\<not> i < dv * blocksize \<Longrightarrow> print_blocks fmt bitStream blocksize dv i out = Inr (i, out)"
  by (simp add: print_blocks.simps)

lemma print_blocks_step:
  "i < dv * blocksize \<Longrightarrow> i + blocksize \<le> length bitStream \<Longrightarrow>
   print_blocks fmt bitStream blocksize dv i out =
     print_blocks fmt bitStream blocksize dv (i + blocksize)
       (out @ [BitLine (fmt (take blocksize (drop i bitStream)))])"
  by (subst print_blocks.simps) (simp add: slice_def)

lemma print_blocks_run:
  assumes "dv * blocksize \<le> length bitStream" and "i = k * blocksize" and "k \<le> dv"
  shows "print_blocks fmt bitStream blocksize dv i out =
           Inr (dv * blocksize,
                out @ map (\<lambda>w. BitLine (fmt w))
                        (chunks blocksize (take (dv * blocksize - i) (drop i bitStream))))"
  using assms
proof (induction fmt bitStream blocksize dv i out arbitrary: k rule: print_blocks.induct)
  case (1 fmt bitStream blocksize dv i out)
  show ?case
  proof (cases "i < dv * blocksize")
    case False
    with 1(3,4) have "i = dv * blocksize"
      by (metis le_antisym mult_le_mono1 not_le_imp_less)
    then show ?thesis by simp
  next
    case True
    with 1(3) have "k * blocksize < dv * blocksize"
      by simp
    then have k: "Suc k \<le> dv" and pos: "0 < blocksize"
      by simp_all
    then have "Suc k * blocksize \<le> dv * blocksize"
      by (rule_tac mult_le_mono1)
    with 1(2,3) have fit: "i + blocksize \<le> dv * blocksize" "i + blocksize \<le> length bitStream"
      by simp_all
    let ?w = "take blocksize (drop i bitStream)"
    let ?rest = "take (dv * blocksize - i) (drop i bitStream)"
    have ne: "?rest \<noteq> []"
      using True 1(2) by auto
    have w: "take blocksize ?rest = ?w"
      using fit(1) by (simp add: min_absorb1)
    have r: "drop blocksize ?rest =
             take (dv * blocksize - (i + blocksize)) (drop (i + blocksize) bitStream)"
      by (simp add: drop_take add.commute)
    have "stopped out (slice bitStream i blocksize) = Inr ?w"
      using fit by (simp add: slice_def)
    from 1(1) [OF True this 1(2) _ k] 1(3)
    have "print_blocks fmt bitStream blocksize dv (i + blocksize) (out @ [BitLine (fmt ?w)]) =
          Inr (dv * blocksize, (out @ [BitLine (fmt ?w)]) @ map (\<lambda>w. BitLine (fmt w))
            (chunks blocksize (take (dv * blocksize - (i + blocksize)) (drop (i + blocksize) bitStream))))"
      by (simp add: add.commute)
    then show ?thesis
      unfolding print_blocks_step [OF True fit(2)] chunks_step [OF pos ne] w r by simp
  qed
qed

text \<open>A buffer shorter than the full lines: the loop prints the lines that fit and stops.\<close>

lemma print_blocks_stop:
  "i < dv * blocksize \<Longrightarrow> length bitStream < i + blocksize \<Longrightarrow>
   print_blocks fmt bitStream blocksize dv i out = Inl (ReadOutside, out)"
  by (subst print_blocks.simps) (simp add: slice_def)

lemma print_blocks_short:
  assumes "length bitStream < dv * blocksize" and "i = k * blocksize"
    and "k \<le> length bitStream div blocksize"
  shows "print_blocks fmt bitStream blocksize dv i out =
           Inl (ReadOutside,
                out @ map (\<lambda>w. BitLine (fmt w))
                        (chunks blocksize
                          (take (length bitStream div blocksize * blocksize - i) (drop i bitStream))))"
  using assms
proof (induction fmt bitStream blocksize dv i out arbitrary: k rule: print_blocks.induct)
  case (1 fmt bitStream blocksize dv i out)
  let ?m = "length bitStream div blocksize"
  from 1(2) have pos: "0 < blocksize"
    by (cases blocksize) simp_all
  have m: "?m * blocksize \<le> length bitStream"
    by simp
  from 1(3,4) have "i \<le> ?m * blocksize"
    by simp
  with m 1(2) have run: "i < dv * blocksize"
    by linarith
  show ?case
  proof (cases "k = ?m")
    case True
    from pos have "length bitStream < Suc ?m * blocksize"
      using dividend_less_div_times [of blocksize "length bitStream"] by (simp add: ac_simps)
    with True 1(3) have "length bitStream < i + blocksize"
      by simp
    with True 1(3) run show ?thesis
      by (simp add: print_blocks_stop)
  next
    case False
    with 1(4) have k: "Suc k \<le> ?m"
      by simp
    then have "Suc k * blocksize \<le> ?m * blocksize"
      by (rule mult_le_mono1)
    with 1(3) have "i + blocksize \<le> ?m * blocksize"
      by simp
    with m have fit: "i + blocksize \<le> ?m * blocksize" "i + blocksize \<le> length bitStream"
      by linarith+
    let ?w = "take blocksize (drop i bitStream)"
    let ?rest = "take (?m * blocksize - i) (drop i bitStream)"
    have ne: "?rest \<noteq> []"
      using fit pos by auto
    have w: "take blocksize ?rest = ?w"
      using fit(1) by (simp add: min_absorb1)
    have r: "drop blocksize ?rest =
             take (?m * blocksize - (i + blocksize)) (drop (i + blocksize) bitStream)"
      by (simp add: drop_take add.commute)
    have "stopped out (slice bitStream i blocksize) = Inr ?w"
      using fit by (simp add: slice_def)
    from 1(1) [OF run this 1(2) _ k] 1(3)
    have "print_blocks fmt bitStream blocksize dv (i + blocksize) (out @ [BitLine (fmt ?w)]) =
          Inl (ReadOutside, (out @ [BitLine (fmt ?w)]) @ map (\<lambda>w. BitLine (fmt w))
            (chunks blocksize (take (?m * blocksize - (i + blocksize)) (drop (i + blocksize) bitStream))))"
      by (simp add: add.commute)
    then show ?thesis
      unfolding print_blocks_step [OF run fit(2)] chunks_step [OF pos ne] w r by simp
  qed
qed

section \<open>The presenter\<close>

text \<open>
  What the two \<^verbatim>\<open>uint8_t\<close> locals hold: the number of full lines and the length of the
  last line, both modulo 256.
\<close>

definition blocks_shown :: "nat \<Rightarrow> nat \<Rightarrow> nat" where
  "blocks_shown len blocksize = unat (of_nat (len div blocksize) :: u8)"

definition rest_shown :: "nat \<Rightarrow> nat \<Rightarrow> nat" where
  "rest_shown len blocksize = unat (of_nat (len mod blocksize) :: u8)"

definition shown :: "formatter \<Rightarrow> u8 list \<Rightarrow> nat \<Rightarrow> nat \<Rightarrow> log_msg list" where
  "shown fmt bitStream len blocksize =
     (let full = blocks_shown len blocksize * blocksize; r = rest_shown len blocksize
      in BitCount len # map (\<lambda>w. BitLine (fmt w)) (chunks blocksize (take full bitStream)) @
         (if 0 < r then [BitLine (fmt (take r (drop full bitStream)))] else []))"

declare blocks_shown_def [md_defs] rest_shown_def [md_defs] shown_def [md_defs]

lemma blocks_shown_eq: "blocks_shown len blocksize = len div blocksize mod 256"
  by (simp add: blocks_shown_def unat_of_nat)

lemma rest_shown_eq: "rest_shown len blocksize = len mod blocksize mod 256"
  by (simp add: rest_shown_def unat_of_nat)

lemma shown_fits:
  "blocks_shown len blocksize * blocksize + rest_shown len blocksize \<le> len"
proof -
  have "blocks_shown len blocksize * blocksize \<le> len div blocksize * blocksize"
    by (simp add: blocks_shown_eq)
  moreover have "rest_shown len blocksize \<le> len mod blocksize"
    by (simp add: rest_shown_eq)
  moreover have "len div blocksize * blocksize + len mod blocksize = len"
    by simp
  ultimately show ?thesis
    by arith
qed

lemma present_fit:
  assumes "0 < blocksize"
    and "blocks_shown len blocksize * blocksize + rest_shown len blocksize \<le> length bitStream"
  shows "PrintPaddedManchester fmt bitStream len blocksize = Inr (shown fmt bitStream len blocksize)"
proof -
  let ?dv = "blocks_shown len blocksize" and ?md = "rest_shown len blocksize"
  from assms(2) have fit: "?dv * blocksize \<le> length bitStream"
    by simp
  have run: "print_blocks fmt bitStream blocksize ?dv 0 [BitCount len] =
        Inr (?dv * blocksize, [BitCount len] @ map (\<lambda>w. BitLine (fmt w))
              (chunks blocksize (take (?dv * blocksize) bitStream)))"
    using print_blocks_run [OF fit, of 0 0 fmt "[BitCount len]"] by simp
  have md: "0 < (of_nat (len mod blocksize) :: u8) \<longleftrightarrow> 0 < ?md"
    by (simp add: rest_shown_def word_greater_zero_iff unat_gt_0)
  show ?thesis
    using assms
    unfolding PrintPaddedManchester_def Let_def shown_def md
      blocks_shown_def [symmetric] rest_shown_def [symmetric]
    by (simp add: slice_def run)
qed

lemma present_unfold:
  assumes "0 < blocksize" and "len \<le> length bitStream"
  shows "PrintPaddedManchester fmt bitStream len blocksize = Inr (shown fmt bitStream len blocksize)"
  using assms(2) shown_fits [of len blocksize] by (intro present_fit [OF assms(1)]) simp

lemma present_outside:
  assumes "0 < blocksize"
    and "length bitStream < blocks_shown len blocksize * blocksize + rest_shown len blocksize"
  shows "PrintPaddedManchester fmt bitStream len blocksize =
     Inl (ReadOutside, BitCount len # map (\<lambda>w. BitLine (fmt w))
       (chunks blocksize
         (take (min (blocks_shown len blocksize) (length bitStream div blocksize) * blocksize)
           bitStream)))"
proof (cases "blocks_shown len blocksize * blocksize \<le> length bitStream")
  case True
  let ?dv = "blocks_shown len blocksize" and ?md = "rest_shown len blocksize"
  have run: "print_blocks fmt bitStream blocksize ?dv 0 [BitCount len] =
        Inr (?dv * blocksize, [BitCount len] @ map (\<lambda>w. BitLine (fmt w))
              (chunks blocksize (take (?dv * blocksize) bitStream)))"
    using print_blocks_run [OF True, of 0 0 fmt "[BitCount len]"] by simp
  have md: "0 < (of_nat (len mod blocksize) :: u8) \<longleftrightarrow> 0 < ?md"
    by (simp add: rest_shown_def word_greater_zero_iff unat_gt_0)
  from True assms(1) have "?dv \<le> length bitStream div blocksize"
    by (simp add: less_eq_div_iff_mult_less_eq)
  then have "min ?dv (length bitStream div blocksize) = ?dv"
    by simp
  with assms True show ?thesis
    unfolding PrintPaddedManchester_def Let_def md
      blocks_shown_def [symmetric] rest_shown_def [symmetric]
    by (simp add: slice_def run)
next
  case False
  let ?dv = "blocks_shown len blocksize"
  from False have short: "length bitStream < ?dv * blocksize"
    by simp
  with assms(1) have "length bitStream div blocksize < ?dv"
    by (simp add: div_less_iff_less_mult)
  then have "min ?dv (length bitStream div blocksize) = length bitStream div blocksize"
    by simp
  with assms(1) print_blocks_short [OF short, of 0 0 fmt "[BitCount len]"] show ?thesis
    unfolding PrintPaddedManchester_def Let_def blocks_shown_def [symmetric]
    by simp
qed

lemma chunks_short: "0 < length xs \<Longrightarrow> length xs \<le> n \<Longrightarrow> chunks n xs = [xs]"
  by (subst chunks.simps) (cases n; auto)

lemma chunks_split:
  assumes "0 < n" and "len \<le> length xs"
  shows "chunks n (take len xs) =
           chunks n (take (len div n * n) xs) @
           (if 0 < len mod n then [take (len mod n) (drop (len div n * n) xs)] else [])"
proof -
  let ?full = "len div n * n"
  have "take len xs = take ?full xs @ take (len mod n) (drop ?full xs)"
    using take_add [of ?full "len mod n" xs] by simp
  moreover have "length (take ?full xs) = len div n * n"
    using assms(2) by (simp add: min_absorb2 le_trans [OF _ assms(2)])
  moreover have "length (take (len mod n) (drop ?full xs)) = len mod n"
  proof -
    have "?full + len mod n = len" by simp
    with assms(2) have "len mod n \<le> length xs - ?full" by arith
    then show ?thesis by simp
  qed
  ultimately show ?thesis
    using assms(1) chunks_append_full [of n "take ?full xs" "len div n" "take (len mod n) (drop ?full xs)"]
    by (simp add: chunks_short del: take_all_iff length_take)
qed

lemma shown_spec:
  assumes "0 < blocksize" and "len \<le> length bitStream"
    and "len div blocksize < 256" and "len mod blocksize < 256"
  shows "shown fmt bitStream len blocksize = present_spec fmt (take len bitStream) blocksize"
proof -
  from assms(3,4) have "blocks_shown len blocksize = len div blocksize"
    and "rest_shown len blocksize = len mod blocksize"
    by (simp_all add: blocks_shown_eq rest_shown_eq)
  with chunks_split [OF assms(1,2)] assms(2) show ?thesis
    by (simp add: shown_def Let_def present_spec_def min_absorb2)
qed

lemma mod_block_less: "0 < blocksize \<Longrightarrow> blocksize \<le> 256 \<Longrightarrow> len mod blocksize < (256::nat)"
  by (rule less_le_trans [OF mod_less_divisor])

lemma length_shown:
  "length (shown fmt bitStream len blocksize) \<le>
     Suc (length (chunks blocksize (take (blocks_shown len blocksize * blocksize) bitStream)) + 1)"
  by (simp add: shown_def Let_def)

section \<open>Properties of the presenter\<close>

text \<open>
  C17: With a positive block size, at most 255 full lines to print and a block size of
  at most 256, the presenter prints the bit count and then one line per run of
  \<^verbatim>\<open>blocksize\<close> bits of the first \<^verbatim>\<open>len\<close> bits, the last run shorter when \<^verbatim>\<open>len\<close> is no
  multiple of the block size: its output is the reference \<open>present_spec\<close>.
\<close>

theorem present_lines:
  assumes "0 < blocksize" and "len \<le> length bitStream"
    and "len div blocksize < 256" and "blocksize \<le> 256"
  shows "PrintPaddedManchester fmt bitStream len blocksize =
           Inr (present_spec fmt (take len bitStream) blocksize)"
  using present_unfold [OF assms(1,2)] shown_spec [OF assms(1-3) mod_block_less [OF assms(1,4)]]
  by simp

theorem present_lines_witness:
  "PrintPaddedManchester sprint_bin [1, 0, 0, 1, 1] 5 2 =
     Inr [BitCount 5, BitLine ''10'', BitLine ''01'', BitLine ''1'']"
  using present_lines [of 2 5 "[1, 0, 0, 1, 1]" sprint_bin]
  by (simp add: present_spec_def chunks.simps sprint_bin_def)

text \<open>
  C39: A sequence of 37 bits shown with a block size of 16 gives the bit count and three
  lines, of the bits 0 to 15, 16 to 31 and 32 to 36, in this order.
\<close>

theorem present_37_16:
  assumes "length bitStream = 37"
  shows "PrintPaddedManchester fmt bitStream 37 16 =
           Inr [BitCount 37, BitLine (fmt (take 16 bitStream)),
                BitLine (fmt (take 16 (drop 16 bitStream))), BitLine (fmt (drop 32 bitStream))]"
proof -
  have "chunks 16 bitStream =
          [take 16 bitStream, take 16 (drop 16 bitStream), drop 32 bitStream]"
    using assms chunks_split [of 16 37 bitStream] chunks_step [of 16 "take 32 bitStream"]
      chunks_short [of "drop 16 (take 32 bitStream)" 16]
    by (cases "bitStream = []") (simp_all add: drop_take)
  with present_unfold [of 16 37 bitStream fmt] shown_spec [of 16 37 bitStream fmt] assms
  show ?thesis
    by (simp add: present_spec_def)
qed

theorem present_37_16_witness:
  "PrintPaddedManchester sprint_bin (replicate 37 1) 37 16 =
     Inr [BitCount 37, BitLine (replicate 16 CHR ''1''), BitLine (replicate 16 CHR ''1''),
          BitLine (replicate 5 CHR ''1'')]"
  using present_37_16 [of "replicate 37 1" sprint_bin] by (simp add: sprint_bin_def)

text \<open>
  C18: With a positive block size and at least \<^verbatim>\<open>len\<close> cells behind the pointer, the
  presenter reads no cell outside the first \<^verbatim>\<open>len\<close> and ends, whatever the values of
  its two byte-sized locals: its output is \<open>shown\<close>, which starts with the bit count.
\<close>

theorem present_total:
  assumes "0 < blocksize" and "len \<le> length bitStream"
  shows "\<exists>out. PrintPaddedManchester fmt bitStream len blocksize = Inr (BitCount len # out) \<and>
               PrintPaddedManchester fmt (take len bitStream) len blocksize = Inr (BitCount len # out)"
proof -
  let ?full = "blocks_shown len blocksize * blocksize"
  from shown_fits [of len blocksize]
  have "?full \<le> len" and "?full + rest_shown len blocksize \<le> len"
    by simp_all
  then have "shown fmt (take len bitStream) len blocksize = shown fmt bitStream len blocksize"
    by (simp add: shown_def Let_def min_absorb1 drop_take)
  with present_unfold [OF assms, of fmt] present_unfold [OF assms(1), of len "take len bitStream" fmt]
    assms(2) show ?thesis
    by (simp add: shown_def Let_def)
qed

theorem present_total_witness:
  "\<exists>out. PrintPaddedManchester sprint_bin [1, 0, 1, 1, 0] 3 2 = Inr (BitCount 3 # out) \<and>
         PrintPaddedManchester sprint_bin (take 3 [1, 0, 1, 1, 0]) 3 2 = Inr (BitCount 3 # out)"
  using present_total [of 2 3 "[1, 0, 1, 1, 0]" sprint_bin] by simp

text \<open>
  C19: When \<^verbatim>\<open>len / blocksize\<close> is 256 or more, its value does not fit the \<^verbatim>\<open>uint8_t\<close>
  local \<^verbatim>\<open>div\<close> and the presenter prints fewer lines than the bits need: the output is
  shorter than \<open>present_spec\<close>.
\<close>

theorem present_loses_lines:
  assumes "0 < blocksize" and "len \<le> length bitStream" and "256 \<le> len div blocksize"
    and "PrintPaddedManchester fmt bitStream len blocksize = Inr out"
  shows "length out < length (present_spec fmt (take len bitStream) blocksize)"
proof -
  let ?dv = "blocks_shown len blocksize"
  have dv: "?dv < 256"
    by (simp add: blocks_shown_eq)
  have "?dv * blocksize \<le> len div blocksize * blocksize"
    by (simp add: blocks_shown_eq)
  also have "\<dots> \<le> len"
    by simp
  finally have "length (take (?dv * blocksize) bitStream) = ?dv * blocksize"
    using assms(2) by simp
  with assms(1) have "length (chunks blocksize (take (?dv * blocksize) bitStream)) = ?dv"
    by (rule length_chunks_exact)
  moreover have "rest_shown len blocksize \<le> len mod blocksize"
    by (simp add: rest_shown_eq)
  moreover have "length (take (len div blocksize * blocksize) bitStream) = len div blocksize * blocksize"
    using assms(2) by (simp add: min_absorb2 le_trans [of "len div blocksize * blocksize" len])
  with assms(1) have "length (chunks blocksize (take (len div blocksize * blocksize) bitStream)) =
      len div blocksize"
    by (rule length_chunks_exact)
  then have "length (chunks blocksize (take len bitStream)) =
      len div blocksize + (if 0 < len mod blocksize then 1 else 0)"
    using chunks_split [OF assms(1,2)] by simp
  ultimately show ?thesis
    using assms(3,4) dv present_unfold [OF assms(1,2), of fmt]
    by (auto simp: shown_def Let_def present_spec_def)
qed

theorem present_loses_lines_witness:
  "PrintPaddedManchester sprint_bin (replicate 256 1) 256 1 = Inr [BitCount 256] \<and>
   length [BitCount 256] < length (present_spec sprint_bin (take 256 (replicate 256 1)) 1)"
  using present_loses_lines [of 1 256 "replicate 256 1" sprint_bin "[BitCount 256]"]
    present_unfold [of 1 256 "replicate 256 1" sprint_bin]
  by (simp add: shown_def blocks_shown_eq rest_shown_eq)

text \<open>
  C40: When the presenter fails, and what it has printed by then. A block size of 0
  divides by zero right after the bit count is printed. With a positive block size the
  presenter reads \<open>div * blocksize + mod\<close> cells, where \<open>div\<close> and \<open>mod\<close> are the values
  of the two byte-sized locals: when the buffer has that many cells the output is
  \<open>shown\<close>, and when it has fewer the presenter reads behind the buffer after it has
  printed the bit count and the full lines that fit, and no other line.
\<close>

theorem present_faults:
  "PrintPaddedManchester fmt bitStream len blocksize =
     (if blocksize = 0 then Inl (DivideByZero, [BitCount len])
      else if blocks_shown len blocksize * blocksize + rest_shown len blocksize \<le> length bitStream
      then Inr (shown fmt bitStream len blocksize)
      else Inl (ReadOutside, BitCount len # map (\<lambda>w. BitLine (fmt w))
             (chunks blocksize
               (take (min (blocks_shown len blocksize) (length bitStream div blocksize) * blocksize)
                 bitStream))))"
proof (cases "blocksize = 0")
  case True
  then show ?thesis
    by (simp add: PrintPaddedManchester_def)
next
  case False
  then show ?thesis
    using present_fit [of blocksize len bitStream fmt] present_outside [of blocksize bitStream len fmt]
    by (simp add: not_le)
qed

theorem present_faults_witness:
  "PrintPaddedManchester sprint_bin [1, 0, 0, 1, 1] 8 2 =
     Inl (ReadOutside, [BitCount 8, BitLine ''10'', BitLine ''01'']) \<and>
   PrintPaddedManchester sprint_bin [1, 0, 0, 1, 1] 6 4 =
     Inl (ReadOutside, [BitCount 6, BitLine ''1001'']) \<and>
   PrintPaddedManchester sprint_bin [1, 0, 0, 1, 1] 5 0 = Inl (DivideByZero, [BitCount 5])"
  using present_faults [of sprint_bin "[1, 0, 0, 1, 1]" 8 2]
    present_faults [of sprint_bin "[1, 0, 0, 1, 1]" 6 4]
    present_faults [of sprint_bin "[1, 0, 0, 1, 1]" 5 0]
  by (simp add: blocks_shown_eq rest_shown_eq chunks.simps sprint_bin_def)

text \<open>
  C20: With a positive block size of at most 256 and fewer than 256 full lines, the
  lines printed, put one after the other, are the first \<^verbatim>\<open>len\<close> bits: no bit is lost, repeated or moved, and there are
  \<open>\<lceil>len / blocksize\<rceil>\<close> lines, all but the last of \<^verbatim>\<open>blocksize\<close> bits.
\<close>

theorem present_roundtrip:
  assumes "0 < blocksize" and "len \<le> length bitStream"
    and "len div blocksize < 256" and "blocksize \<le> 256"
  shows "\<exists>ws. PrintPaddedManchester fmt bitStream len blocksize =
                Inr (BitCount len # map (\<lambda>w. BitLine (fmt w)) ws) \<and>
              concat ws = take len bitStream \<and>
              length ws = (len + (blocksize - 1)) div blocksize \<and>
              (\<forall>w \<in> set (butlast ws). length w = blocksize)"
proof (intro exI conjI ballI)
  let ?ws = "chunks blocksize (take len bitStream)"
  show "PrintPaddedManchester fmt bitStream len blocksize =
          Inr (BitCount len # map (\<lambda>w. BitLine (fmt w)) ?ws)"
    using present_unfold [OF assms(1,2), of fmt] assms(2)
      shown_spec [OF assms(1-3) mod_block_less [OF assms(1,4)], of fmt]
    by (simp add: present_spec_def)
  show "concat ?ws = take len bitStream"
    using assms(1) by (rule concat_chunks)
  show "length ?ws = (len + (blocksize - 1)) div blocksize"
    using assms(2) by (simp add: length_chunks [OF assms(1)] min_absorb2)
  show "length w = blocksize" if "w \<in> set (butlast ?ws)" for w
    using assms(1) that by (rule chunks_full_lengths)
qed

theorem present_roundtrip_witness:
  "\<exists>ws. PrintPaddedManchester sprint_bin [1, 0, 0, 1, 1] 5 2 =
          Inr (BitCount 5 # map (\<lambda>w. BitLine (sprint_bin w)) ws) \<and>
        concat ws = take 5 [1, 0, 0, 1, 1] \<and> length ws = (5 + (2 - 1)) div 2 \<and>
        (\<forall>w \<in> set (butlast ws). length w = 2)"
  using present_roundtrip [of 2 5 "[1, 0, 0, 1, 1]" sprint_bin] by simp

end
