(* ===== verification/Logging.thy ===== *)
theory Logging
  imports MD_Prelude
begin

text \<open>
  The logger of \<^verbatim>\<open>src/client/ui.c\<close>: \<^verbatim>\<open>PrintAndLog\<close> and \<^verbatim>\<open>SetLogFilename\<close>, with the
  variables they share. The state \<open>ui_state\<close> holds the static variables of the file
  (\<^verbatim>\<open>logfilename\<close>, \<^verbatim>\<open>logfile\<close>, \<^verbatim>\<open>logging\<close>), the global \<^verbatim>\<open>flushAfterWrite\<close>, the
  mutex \<^verbatim>\<open>print_lock\<close>, the part of the readline state that \<^verbatim>\<open>PrintAndLog\<close> touches, and
  what the outside world holds: the text written to the standard output (\<open>console\<close>),
  how much of it has left the buffer of the stream (\<open>shown\<close>), whether the stream is
  buffered by lines as on a terminal, the text on the error stream, the contents of the
  files, and which files can be opened for appending. \<^verbatim>\<open>PrintAndLog\<close> is the composition
  of one definition per block of its body. The text of a message is what \<^verbatim>\<open>vprintf\<close> makes of
  the format string and its arguments; \<open>render\<close> gives it for the messages of the decoder
  and of the presenter.
\<close>

section \<open>State\<close>

record ui_state =
  logfilename :: string
  logfile :: "string option"
  logging :: bool
  flushAfterWrite :: int
  print_lock :: bool
  rl_readcmd :: bool
  rl_line :: string
  rl_point :: nat
  rl_prompt_saved :: bool
  console :: string
  shown :: nat
  line_buffered :: bool
  errout :: string
  files :: "string \<Rightarrow> string"
  appendable :: "string \<Rightarrow> bool"

text \<open>
  The state at program start: the initialisers of the variables, nothing printed, no
  command being read, the standard output on a terminal. The files and which of them can
  be opened are parameters.
\<close>

definition initial :: "(string \<Rightarrow> string) \<Rightarrow> (string \<Rightarrow> bool) \<Rightarrow> ui_state" where
  "initial fs ok =
     \<lparr>logfilename = ''proxmark3.log'', logfile = None, logging = True, flushAfterWrite = 0,
      print_lock = False, rl_readcmd = False, rl_line = [], rl_point = 0,
      rl_prompt_saved = False, console = [], shown = 0, line_buffered = True, errout = [],
      files = fs, appendable = ok\<rparr>"

section \<open>The blocks of \<^verbatim>\<open>PrintAndLog\<close>\<close>

abbreviation newline :: string where
  "newline \<equiv> [CHR 0x0A]"

definition cannot_open :: string where
  "cannot_open = ''Can'' @ [CHR 0x27] @ ''t open logfile, logging disabled!'' @ newline"

text \<open>The first use opens the log file; a failure turns logging off.\<close>

definition open_log :: "ui_state \<Rightarrow> ui_state" where
  "open_log s =
     (if logging s \<and> logfile s = None
      then if appendable s (logfilename s) then s\<lparr>logfile := Some (logfilename s)\<rparr>
           else s\<lparr>errout := errout s @ cannot_open, logging := False\<rparr>
      else s)"

text \<open>
  \<^verbatim>\<open>rl_replace_line\<close> of the readline library: the line becomes the text and the point
  is kept when it still lies in the line.
\<close>

definition rl_replace_line :: "string \<Rightarrow> ui_state \<Rightarrow> ui_state" where
  "rl_replace_line text s = s\<lparr>rl_line := text, rl_point := min (rl_point s) (length text)\<rparr>"

definition need_hack :: "ui_state \<Rightarrow> bool" where
  "need_hack s = rl_readcmd s"

text \<open>
  The line being edited is put aside; the result holds the two saved locals, which are
  not initialised when there is nothing to save.
\<close>

definition save_line :: "bool \<Rightarrow> ui_state \<Rightarrow> (nat \<times> string) \<times> ui_state" where
  "save_line hack s =
     (if hack
      then ((rl_point s, rl_line s), rl_replace_line [] (s\<lparr>rl_prompt_saved := True\<rparr>))
      else ((0, []), s))"

text \<open>
  One write to the standard output; a message takes three of them. A stream that is
  buffered by lines passes on what it holds up to the last newline written.
\<close>

definition put_console :: "string \<Rightarrow> ui_state \<Rightarrow> ui_state" where
  "put_console txt s =
     (let s' = s\<lparr>console := console s @ txt\<rparr> in
      if line_buffered s \<and> CHR 0x0A \<in> set txt
      then s'\<lparr>shown := length (console s') - length (takeWhile (\<lambda>c. c \<noteq> CHR 0x0A) (rev txt))\<rparr>
      else s')"

definition print_console :: "string \<Rightarrow> ui_state \<Rightarrow> ui_state" where
  "print_console msg s =
     put_console newline (put_console (replicate 10 CHR '' '') (put_console msg s))"

definition restore_line :: "bool \<Rightarrow> nat \<times> string \<Rightarrow> ui_state \<Rightarrow> ui_state" where
  "restore_line hack saved s =
     (if hack
      then (rl_replace_line (snd saved) (s\<lparr>rl_prompt_saved := False\<rparr>))\<lparr>rl_point := fst saved\<rparr>
      else s)"

definition write_log :: "string \<Rightarrow> ui_state \<Rightarrow> ui_state" where
  "write_log msg s =
     (case logfile s of
        Some f \<Rightarrow> if logging s then s\<lparr>files := (files s)(f := files s f @ msg @ newline)\<rparr> else s
      | None \<Rightarrow> s)"

text \<open>\<^verbatim>\<open>fflush(NULL)\<close> when the flag is set: all that was written is passed on.\<close>

definition flush_all :: "ui_state \<Rightarrow> ui_state" where
  "flush_all s = (if flushAfterWrite s = 1 then s\<lparr>shown := length (console s)\<rparr> else s)"

section \<open>The two functions\<close>

text \<open>The body between taking and releasing the mutex.\<close>

definition print_body :: "string \<Rightarrow> ui_state \<Rightarrow> ui_state" where
  "print_body msg s =
     (let s1 = open_log s;
          hack = need_hack s1;
          (saved, s2) = save_line hack s1;
          s3 = print_console msg s2;
          s4 = restore_line hack saved s3;
          s5 = write_log msg s4
      in flush_all s5)"

text \<open>
  A call that finds the mutex taken waits; when no other thread runs, it waits for
  ever, which is the value \<open>None\<close>.
\<close>

definition PrintAndLog :: "string \<Rightarrow> ui_state \<Rightarrow> ui_state option" where
  "PrintAndLog msg s =
     (if print_lock s then None
      else Some ((print_body msg (s\<lparr>print_lock := True\<rparr>))\<lparr>print_lock := False\<rparr>))"

definition SetLogFilename :: "string \<Rightarrow> ui_state \<Rightarrow> ui_state" where
  "SetLogFilename fn s = s\<lparr>logfilename := fn\<rparr>"

section \<open>The text of the messages\<close>

definition digit :: "nat \<Rightarrow> char" where
  "digit d = ''0123456789'' ! d"

function decimal :: "nat \<Rightarrow> string" where
  "decimal n = (if n < 10 then [digit n] else decimal (n div 10) @ [digit (n mod 10)])"
  by pat_completeness auto
termination
  by (relation "measure id") auto

declare decimal.simps [simp del]

text \<open>One case per call of \<^verbatim>\<open>PrintAndLog\<close> in the file, with its format string.\<close>

fun render :: "log_msg \<Rightarrow> string" where
  "render (DetectedClock n) = '' Detected clock: '' @ decimal n"
| "render ClockWrongError = ''Error: the clock you gave is probably wrong, aborting.''"
| "render PulseWidthWarning = ''Warning: Manchester decode error for pulse width detection.''"
| "render TooManyDetectionErrors = ''Error: too many detection errors, aborting.''"
| "render UnsyncWarning = ''Unsynchronized, resync...''"
| "render TooManyDecodeErrors = ''Error: too many decode errors, aborting.''"
| "render (BitCount n) = '' Manchester decoded bitstream : '' @ decimal n @ '' bits''"
| "render (BitLine l) = '' '' @ l"

text \<open>A sequence of calls, as the decoder and the presenter make them.\<close>

fun print_all :: "log_msg list \<Rightarrow> ui_state \<Rightarrow> ui_state option" where
  "print_all [] s = Some s"
| "print_all (m # ms) s =
     (case PrintAndLog (render m) s of None \<Rightarrow> None | Some s' \<Rightarrow> print_all ms s')"

declare initial_def [md_defs] cannot_open_def [md_defs] open_log_def [md_defs]
  rl_replace_line_def [md_defs] need_hack_def [md_defs] save_line_def [md_defs]
  put_console_def [md_defs] print_console_def [md_defs] restore_line_def [md_defs]
  write_log_def [md_defs] flush_all_def [md_defs]
  print_body_def [md_defs] PrintAndLog_def [md_defs] SetLogFilename_def [md_defs]
  decimal.simps [md_defs] digit_def [md_defs]

section \<open>Invariant\<close>

text \<open>
  Between calls: an open log file means that logging is on, the point lies in the
  line, no prompt is put aside, the mutex is free, and what has left the buffer of the
  standard output is part of what was written.
\<close>

definition ui_inv :: "ui_state \<Rightarrow> bool" where
  "ui_inv s \<longleftrightarrow>
     (logfile s \<noteq> None \<longrightarrow> logging s) \<and> rl_point s \<le> length (rl_line s) \<and>
     \<not> rl_prompt_saved s \<and> \<not> print_lock s \<and> shown s \<le> length (console s)"

text \<open>The state after a call, when the invariant holds before it.\<close>

definition after_call :: "string \<Rightarrow> ui_state \<Rightarrow> ui_state" where
  "after_call msg s = flush_all (write_log msg (print_console msg (open_log s)))"

section \<open>What each block changes\<close>

lemma open_log_frame [simp]:
  "print_lock (open_log s) = print_lock s" "rl_readcmd (open_log s) = rl_readcmd s"
  "rl_line (open_log s) = rl_line s" "rl_point (open_log s) = rl_point s"
  "rl_prompt_saved (open_log s) = rl_prompt_saved s" "console (open_log s) = console s"
  "files (open_log s) = files s" "appendable (open_log s) = appendable s"
  "logfilename (open_log s) = logfilename s" "flushAfterWrite (open_log s) = flushAfterWrite s"
  "shown (open_log s) = shown s" "line_buffered (open_log s) = line_buffered s"
  by (simp_all add: open_log_def)

lemma open_log_cases:
  "logfile (open_log s) =
     (if logging s \<and> logfile s = None \<and> appendable s (logfilename s)
      then Some (logfilename s) else logfile s)"
  "logging (open_log s) \<longleftrightarrow> logging s \<and> (logfile s = None \<longrightarrow> appendable s (logfilename s))"
  "errout (open_log s) =
     (if logging s \<and> logfile s = None \<and> \<not> appendable s (logfilename s)
      then errout s @ cannot_open else errout s)"
  by (auto simp: open_log_def)

lemma open_log_idem [simp]: "open_log (open_log s) = open_log s"
  by (simp add: open_log_def)

lemma readline_round_trip:
  assumes "rl_point s \<le> length (rl_line s)" and "\<not> rl_prompt_saved s"
  shows "restore_line hack (fst (save_line hack s)) (print_console msg (snd (save_line hack s))) =
           print_console msg s"
  using assms
  by (simp add: restore_line_def save_line_def print_console_def put_console_def
      rl_replace_line_def min_absorb1 Let_def)

lemma print_body_eq:
  assumes "rl_point s \<le> length (rl_line s)" and "\<not> rl_prompt_saved s"
  shows "print_body msg s = after_call msg s"
proof -
  from readline_round_trip [of "open_log s" "need_hack (open_log s)" msg] assms show ?thesis
    by (simp add: print_body_def after_call_def Let_def split_beta)
qed

text \<open>No block but the first and the last looks at the mutex.\<close>

lemma lock_commutes:
  "open_log (s\<lparr>print_lock := b\<rparr>) = (open_log s)\<lparr>print_lock := b\<rparr>"
  "put_console txt (s\<lparr>print_lock := b\<rparr>) = (put_console txt s)\<lparr>print_lock := b\<rparr>"
  "write_log msg (s\<lparr>print_lock := b\<rparr>) = (write_log msg s)\<lparr>print_lock := b\<rparr>"
  "flush_all (s\<lparr>print_lock := b\<rparr>) = (flush_all s)\<lparr>print_lock := b\<rparr>"
  by (simp_all add: open_log_def put_console_def write_log_def flush_all_def Let_def
      split: option.splits)

lemma after_call_lock:
  "after_call msg (s\<lparr>print_lock := b\<rparr>) = (after_call msg s)\<lparr>print_lock := b\<rparr>"
  by (simp add: after_call_def print_console_def lock_commutes)

lemma after_call_unlock:
  "\<not> print_lock s \<Longrightarrow> (after_call msg (s\<lparr>print_lock := True\<rparr>))\<lparr>print_lock := False\<rparr> = after_call msg s"
proof -
  assume "\<not> print_lock s"
  hence free: "s\<lparr>print_lock := False\<rparr> = s" by simp
  have "(after_call msg (s\<lparr>print_lock := True\<rparr>))\<lparr>print_lock := False\<rparr> =
      after_call msg (s\<lparr>print_lock := False\<rparr>)"
    by (simp add: after_call_lock)
  thus ?thesis by (simp only: free)
qed

lemma PrintAndLog_eq:
  assumes "ui_inv s"
  shows "PrintAndLog msg s = Some (after_call msg s)"
proof -
  from assms have "print_body msg (s\<lparr>print_lock := True\<rparr>) = after_call msg (s\<lparr>print_lock := True\<rparr>)"
    by (intro print_body_eq) (simp_all add: ui_inv_def)
  with assms show ?thesis
    by (simp add: PrintAndLog_def ui_inv_def after_call_unlock)
qed

lemma write_log_simps [simp]:
  "logfilename (write_log msg s) = logfilename s" "logfile (write_log msg s) = logfile s"
  "logging (write_log msg s) = logging s" "print_lock (write_log msg s) = print_lock s"
  "rl_readcmd (write_log msg s) = rl_readcmd s" "rl_line (write_log msg s) = rl_line s"
  "rl_point (write_log msg s) = rl_point s"
  "rl_prompt_saved (write_log msg s) = rl_prompt_saved s"
  "console (write_log msg s) = console s" "errout (write_log msg s) = errout s"
  "appendable (write_log msg s) = appendable s"
  "flushAfterWrite (write_log msg s) = flushAfterWrite s" "shown (write_log msg s) = shown s"
  "line_buffered (write_log msg s) = line_buffered s"
  by (simp_all add: write_log_def split: option.splits)

lemma print_console_simps [simp]:
  "logfilename (print_console msg s) = logfilename s" "logfile (print_console msg s) = logfile s"
  "logging (print_console msg s) = logging s" "print_lock (print_console msg s) = print_lock s"
  "rl_readcmd (print_console msg s) = rl_readcmd s" "rl_line (print_console msg s) = rl_line s"
  "rl_point (print_console msg s) = rl_point s"
  "rl_prompt_saved (print_console msg s) = rl_prompt_saved s"
  "console (print_console msg s) = console s @ msg @ replicate 10 CHR '' '' @ newline"
  "errout (print_console msg s) = errout s" "files (print_console msg s) = files s"
  "appendable (print_console msg s) = appendable s"
  "flushAfterWrite (print_console msg s) = flushAfterWrite s"
  "line_buffered (print_console msg s) = line_buffered s"
  "shown (print_console msg s) =
     (if line_buffered s then length (console s) + length msg + 11 else shown s)"
  by (simp_all add: print_console_def put_console_def Let_def)

lemma flush_all_simps [simp]:
  "logfilename (flush_all s) = logfilename s" "logfile (flush_all s) = logfile s"
  "logging (flush_all s) = logging s" "print_lock (flush_all s) = print_lock s"
  "rl_readcmd (flush_all s) = rl_readcmd s" "rl_line (flush_all s) = rl_line s"
  "rl_point (flush_all s) = rl_point s" "rl_prompt_saved (flush_all s) = rl_prompt_saved s"
  "console (flush_all s) = console s" "errout (flush_all s) = errout s"
  "files (flush_all s) = files s" "appendable (flush_all s) = appendable s"
  "flushAfterWrite (flush_all s) = flushAfterWrite s"
  "line_buffered (flush_all s) = line_buffered s"
  "shown (flush_all s) = (if flushAfterWrite s = 1 then length (console s) else shown s)"
  by (simp_all add: flush_all_def)

lemma after_call_simps [simp]:
  "console (after_call msg s) = console s @ msg @ replicate 10 CHR '' '' @ newline"
  "rl_line (after_call msg s) = rl_line s" "rl_point (after_call msg s) = rl_point s"
  "rl_readcmd (after_call msg s) = rl_readcmd s" "appendable (after_call msg s) = appendable s"
  "logfilename (after_call msg s) = logfilename s"
  "flushAfterWrite (after_call msg s) = flushAfterWrite s"
  "line_buffered (after_call msg s) = line_buffered s"
  "logfile (after_call msg s) = logfile (open_log s)"
  "errout (after_call msg s) = errout (open_log s)"
  by (simp_all add: after_call_def)

lemma files_write_log:
  "files (write_log msg s) =
     (case logfile s of
        Some f \<Rightarrow> if logging s then (files s)(f := files s f @ msg @ newline) else files s
      | None \<Rightarrow> files s)"
  by (simp add: write_log_def split: option.splits)

lemma SetLogFilename_simps [simp]:
  "logfilename (SetLogFilename fn s) = fn" "logfile (SetLogFilename fn s) = logfile s"
  "logging (SetLogFilename fn s) = logging s" "files (SetLogFilename fn s) = files s"
  "console (SetLogFilename fn s) = console s" "errout (SetLogFilename fn s) = errout s"
  "appendable (SetLogFilename fn s) = appendable s"
  "flushAfterWrite (SetLogFilename fn s) = flushAfterWrite s"
  "shown (SetLogFilename fn s) = shown s" "line_buffered (SetLogFilename fn s) = line_buffered s"
  "ui_inv (SetLogFilename fn s) = ui_inv s"
  by (simp_all add: SetLogFilename_def ui_inv_def)

text \<open>The log file name is read by the first block of a call only.\<close>

lemma setname_commutes:
  "put_console txt (SetLogFilename fn s) = SetLogFilename fn (put_console txt s)"
  "write_log msg (SetLogFilename fn s) = SetLogFilename fn (write_log msg s)"
  "flush_all (SetLogFilename fn s) = SetLogFilename fn (flush_all s)"
  "restore_line hack saved (SetLogFilename fn s) = SetLogFilename fn (restore_line hack saved s)"
  "save_line hack (SetLogFilename fn s) =
     (fst (save_line hack s), SetLogFilename fn (snd (save_line hack s)))"
  "(SetLogFilename fn s)\<lparr>print_lock := b\<rparr> = SetLogFilename fn (s\<lparr>print_lock := b\<rparr>)"
  by (simp_all add: SetLogFilename_def put_console_def write_log_def flush_all_def
      restore_line_def save_line_def rl_replace_line_def Let_def split: option.splits)

lemma ui_inv_initial [simp]: "ui_inv (initial fs ok)"
  by (simp add: ui_inv_def initial_def)

lemma ui_inv_after: "ui_inv s \<Longrightarrow> ui_inv (after_call msg s)"
  by (auto simp: ui_inv_def after_call_def open_log_cases)

text \<open>The line that one call adds to the console.\<close>

definition console_line :: "string \<Rightarrow> string" where
  "console_line msg = msg @ replicate 10 CHR '' '' @ newline"

text \<open>The file that a call writes to, if any: the open one, or the one it opens.\<close>

definition log_target :: "ui_state \<Rightarrow> string option" where
  "log_target s =
     (if \<not> logging s then None
      else case logfile s of Some f \<Rightarrow> Some f
           | None \<Rightarrow> if appendable s (logfilename s) then Some (logfilename s) else None)"

declare console_line_def [md_defs] log_target_def [md_defs] ui_inv_def [md_defs]

lemma files_after:
  "ui_inv s \<Longrightarrow> files (after_call msg s) =
     (case log_target s of Some f \<Rightarrow> (files s)(f := files s f @ msg @ newline)
      | None \<Rightarrow> files s)"
  by (auto simp: after_call_def files_write_log log_target_def open_log_cases ui_inv_def
      split: option.splits)

lemma log_target_after:
  "ui_inv s \<Longrightarrow> log_target (after_call msg s) = log_target s"
  by (auto simp: after_call_def log_target_def open_log_cases ui_inv_def split: option.splits)

lemma print_all_append:
  "print_all (ms @ ns) s = (case print_all ms s of None \<Rightarrow> None | Some s' \<Rightarrow> print_all ns s')"
  by (induction ms arbitrary: s) (simp_all split: option.splits)

lemma print_all_run:
  assumes "ui_inv s"
  shows "\<exists>s'. print_all ms s = Some s' \<and> ui_inv s' \<and>
          console s' = console s @ concat (map (\<lambda>m. console_line (render m)) ms) \<and>
          log_target s' = log_target s \<and>
          files s' = (case log_target s of
             Some f \<Rightarrow> (files s)(f := files s f @ concat (map (\<lambda>m. render m @ newline) ms))
           | None \<Rightarrow> files s) \<and>
          rl_line s' = rl_line s \<and> rl_point s' = rl_point s"
  using assms
proof (induction ms arbitrary: s)
  case Nil
  then show ?case by (simp split: option.splits)
next
  case (Cons m ms)
  let ?s1 = "after_call (render m) s"
  from Cons.prems have 1: "PrintAndLog (render m) s = Some ?s1" and inv: "ui_inv ?s1"
    by (simp_all add: PrintAndLog_eq ui_inv_after)
  from Cons.IH [OF inv] obtain s' where s': "print_all ms ?s1 = Some s'" "ui_inv s'"
    "console s' = console ?s1 @ concat (map (\<lambda>m. console_line (render m)) ms)"
    "log_target s' = log_target ?s1"
    "files s' = (case log_target ?s1 of
             Some f \<Rightarrow> (files ?s1)(f := files ?s1 f @ concat (map (\<lambda>m. render m @ newline) ms))
           | None \<Rightarrow> files ?s1)"
    "rl_line s' = rl_line ?s1" "rl_point s' = rl_point ?s1"
    by blast
  with 1 Cons.prems show ?case
    by (simp add: console_line_def log_target_after files_after split: option.splits)
qed

lemma log_target_off: "\<not> logging s \<Longrightarrow> log_target s = None"
  by (simp add: log_target_def)

lemma logging_after:
  "ui_inv s \<Longrightarrow> logging (after_call msg s) \<longleftrightarrow> log_target s \<noteq> None"
  by (auto simp: after_call_def log_target_def open_log_cases ui_inv_def split: option.splits)

section \<open>Properties of the logger\<close>

text \<open>
  C21: The invariant \<open>ui_inv\<close> holds at program start and both functions keep it; a
  call of \<^verbatim>\<open>PrintAndLog\<close> in a state that satisfies it returns, with the mutex released.
\<close>

theorem PrintAndLog_keeps_inv:
  assumes "ui_inv s"
  shows "(\<exists>s'. PrintAndLog msg s = Some s' \<and> ui_inv s') \<and> ui_inv (SetLogFilename fn s) \<and>
         ui_inv (initial fs ok)"
  using assms by (simp add: PrintAndLog_eq ui_inv_after)

theorem PrintAndLog_keeps_inv_witness:
  "(\<exists>s'. PrintAndLog ''abc'' (initial (\<lambda>f. []) (\<lambda>f. True)) = Some s' \<and> ui_inv s') \<and>
   ui_inv (SetLogFilename ''x.log'' (initial (\<lambda>f. []) (\<lambda>f. True))) \<and>
   ui_inv (initial (\<lambda>f. []) (\<lambda>f. True))"
  using PrintAndLog_keeps_inv [of "initial (\<lambda>f. []) (\<lambda>f. True)" "''abc''" "''x.log''"
      "\<lambda>f. []" "\<lambda>f. True"]
  by simp

text \<open>
  C22: A call of \<^verbatim>\<open>PrintAndLog\<close> appends the message, ten spaces and a newline to the
  console, whether or not logging works, and leaves the line that the user is editing
  and the position of the cursor in it as they were, also when a command is being read
  and the line is put aside while the message is printed.
\<close>

theorem PrintAndLog_console:
  assumes "ui_inv s" and "PrintAndLog msg s = Some s'"
  shows "console s' = console s @ msg @ replicate 10 CHR '' '' @ newline \<and>
         rl_line s' = rl_line s \<and> rl_point s' = rl_point s \<and> rl_readcmd s' = rl_readcmd s"
  using assms by (auto simp: PrintAndLog_eq)

theorem PrintAndLog_console_witness:
  "\<exists>s'. PrintAndLog ''ok'' ((initial (\<lambda>f. []) (\<lambda>f. False))
            \<lparr>rl_readcmd := True, rl_line := ''hf se'', rl_point := 2\<rparr>) = Some s' \<and>
         console s' = ''ok'' @ replicate 10 CHR '' '' @ newline \<and>
         rl_line s' = ''hf se'' \<and> rl_point s' = 2 \<and> rl_readcmd s'"
proof -
  let ?s = "(initial (\<lambda>f. []) (\<lambda>f. False))\<lparr>rl_readcmd := True, rl_line := ''hf se'', rl_point := 2\<rparr>"
  have inv: "ui_inv ?s"
    by (simp add: ui_inv_def initial_def)
  then obtain s' where s': "PrintAndLog ''ok'' ?s = Some s'"
    by (simp add: PrintAndLog_eq)
  from PrintAndLog_console [OF inv s'] s' show ?thesis
    by (simp add: initial_def)
qed

text \<open>
  C23: A call of \<^verbatim>\<open>PrintAndLog\<close> appends the message and a newline to one file, the
  \<open>log_target\<close> of the state (the file that is open, or the file named by
  \<^verbatim>\<open>logfilename\<close> if none is open and that one can be opened), and to no file when
  logging is off or the file cannot be opened. No other file changes, and the target of
  the next call is the same.
\<close>

theorem PrintAndLog_logs:
  assumes "ui_inv s" and "PrintAndLog msg s = Some s'"
  shows "files s' = (case log_target s of
                      Some f \<Rightarrow> (files s)(f := files s f @ msg @ newline)
                    | None \<Rightarrow> files s) \<and>
         log_target s' = log_target s"
  using assms by (auto simp: PrintAndLog_eq files_after log_target_after)

theorem PrintAndLog_logs_witness:
  "\<exists>s'. PrintAndLog ''ok'' (initial (\<lambda>f. ''old'') (\<lambda>f. True)) = Some s' \<and>
         files s' = (\<lambda>f. ''old'')(''proxmark3.log'' := ''oldok'' @ newline) \<and>
         log_target s' = Some ''proxmark3.log''"
  using PrintAndLog_logs [of "initial (\<lambda>f. ''old'') (\<lambda>f. True)" "''ok''"]
  by (simp add: PrintAndLog_eq) (simp add: log_target_def initial_def)

text \<open>
  C37: Once the log file is open, \<^verbatim>\<open>SetLogFilename\<close> has no effect on where messages go:
  the next call of \<^verbatim>\<open>PrintAndLog\<close> still writes to the file opened first, and the file
  with the new name is not touched.
\<close>

theorem SetLogFilename_after_open:
  assumes "ui_inv s" and "logfile s = Some f"
    and "PrintAndLog msg (SetLogFilename fn s) = Some s'"
  shows "files s' = (files s)(f := files s f @ msg @ newline) \<and> logfile s' = Some f"
proof -
  from assms(1,2) have "log_target (SetLogFilename fn s) = Some f"
    by (simp add: log_target_def ui_inv_def)
  moreover from assms(1,3)
  have "s' = after_call msg (SetLogFilename fn s)"
    by (simp add: PrintAndLog_eq)
  ultimately show ?thesis
    using assms(1,2) files_after [of "SetLogFilename fn s" msg]
    by (simp add: open_log_cases)
qed

theorem SetLogFilename_after_open_witness:
  "\<exists>s'. PrintAndLog ''m'' (SetLogFilename ''new.log''
            ((initial (\<lambda>f. []) (\<lambda>f. True))\<lparr>logfile := Some ''proxmark3.log''\<rparr>)) = Some s' \<and>
         files s' = (\<lambda>f. [])(''proxmark3.log'' := ''m'' @ newline) \<and>
         logfile s' = Some ''proxmark3.log''"
proof -
  let ?s = "(initial (\<lambda>f. []) (\<lambda>f. True))\<lparr>logfile := Some ''proxmark3.log''\<rparr>"
  have inv: "ui_inv ?s" and f: "logfile ?s = Some ''proxmark3.log''"
    by (simp_all add: ui_inv_def initial_def)
  from inv obtain s' where s': "PrintAndLog ''m'' (SetLogFilename ''new.log'' ?s) = Some s'"
    by (simp add: PrintAndLog_eq)
  from SetLogFilename_after_open [OF inv f s'] s' show ?thesis
    by (simp add: initial_def)
qed

text \<open>
  C38: When the first attempt to open the log file fails, logging is off for the rest of
  the run: no later sequence of messages changes any file, even after
  \<^verbatim>\<open>SetLogFilename\<close> has named a file that can be opened.
\<close>

theorem logging_stays_off:
  assumes "ui_inv s" and "logging s" and "logfile s = None"
    and "\<not> appendable s (logfilename s)"
    and "PrintAndLog msg s = Some s1" and "print_all ms (SetLogFilename fn s1) = Some s2"
  shows "files s2 = files s \<and> \<not> logging s1 \<and> log_target s2 = None"
proof -
  from assms(1-4) have none: "log_target s = None"
    by (simp add: log_target_def)
  from assms(1,5) have eq: "s1 = after_call msg s"
    by (simp add: PrintAndLog_eq)
  from none assms(1) have s1: "ui_inv s1" "\<not> logging s1" "files s1 = files s"
    unfolding eq by (simp_all only: ui_inv_after logging_after files_after) simp_all
  then have "log_target (SetLogFilename fn s1) = None"
    by (simp add: log_target_off)
  with print_all_run [of "SetLogFilename fn s1" ms] s1 assms(6) show ?thesis
    by auto
qed

theorem logging_stays_off_witness:
  "\<exists>s1 s2. PrintAndLog ''a'' (initial (\<lambda>f. []) (\<lambda>f. f \<noteq> ''proxmark3.log'')) = Some s1 \<and>
     print_all [UnsyncWarning] (SetLogFilename ''b.log'' s1) = Some s2 \<and>
     files s2 = (\<lambda>f. []) \<and> \<not> logging s1 \<and> log_target s2 = None"
proof -
  let ?s = "initial (\<lambda>f. []) (\<lambda>f. f \<noteq> ''proxmark3.log'')"
  obtain s1 where 1: "PrintAndLog ''a'' ?s = Some s1" and i1: "ui_inv s1"
    by (simp add: PrintAndLog_eq ui_inv_after)
  from print_all_run [of "SetLogFilename ''b.log'' s1" "[UnsyncWarning]"] i1
  obtain s2 where 2: "print_all [UnsyncWarning] (SetLogFilename ''b.log'' s1) = Some s2"
    by auto
  have "ui_inv ?s" "logging ?s" "logfile ?s = None" "\<not> appendable ?s (logfilename ?s)"
    by (simp_all add: initial_def ui_inv_def)
  from logging_stays_off [OF this 1 2] 1 2 show ?thesis
    by (auto simp: initial_def)
qed

text \<open>
  C28: What the user has seen when a call returns. \<open>shown\<close> counts the characters of the
  standard output that have left the buffer of the stream for certain. When the stream
  is buffered by lines, or when \<^verbatim>\<open>flushAfterWrite\<close> is 1, a call of \<^verbatim>\<open>PrintAndLog\<close> returns
  with everything written so far passed on, the new message included. Otherwise the
  call itself passes nothing on: the message waits in the buffer.
\<close>

theorem PrintAndLog_flushes:
  assumes "ui_inv s" and "PrintAndLog msg s = Some s'"
  shows "shown s' =
     (if line_buffered s \<or> flushAfterWrite s = 1 then length (console s') else shown s)"
  using assms by (auto simp: PrintAndLog_eq after_call_def)

theorem PrintAndLog_flushes_witness:
  "\<exists>s1 s2. PrintAndLog ''ok'' ((initial (\<lambda>f. []) (\<lambda>f. True))\<lparr>line_buffered := False\<rparr>) = Some s1 \<and>
     shown s1 = 0 \<and> length (console s1) = 13 \<and>
     PrintAndLog ''ok''
       ((initial (\<lambda>f. []) (\<lambda>f. True))\<lparr>line_buffered := False, flushAfterWrite := 1\<rparr>) = Some s2 \<and>
     shown s2 = 13"
proof -
  let ?a = "(initial (\<lambda>f. []) (\<lambda>f. True))\<lparr>line_buffered := False\<rparr>"
  let ?b = "(initial (\<lambda>f. []) (\<lambda>f. True))\<lparr>line_buffered := False, flushAfterWrite := 1\<rparr>"
  have inv: "ui_inv ?a" "ui_inv ?b"
    by (simp_all add: ui_inv_def initial_def)
  from inv obtain s1 s2 where p: "PrintAndLog ''ok'' ?a = Some s1" "PrintAndLog ''ok'' ?b = Some s2"
    by (simp add: PrintAndLog_eq)
  from inv p have c: "length (console s1) = 13" "length (console s2) = 13"
    by (auto simp: PrintAndLog_eq initial_def)
  from PrintAndLog_flushes [OF inv(1) p(1)] PrintAndLog_flushes [OF inv(2) p(2)] p c
  show ?thesis
    by (simp add: initial_def)
qed

end
