(* ===== verification/Print_Lock.thy ===== *)
theory Print_Lock
  imports Logging
begin

text \<open>
  Calls of \<^verbatim>\<open>PrintAndLog\<close> and \<^verbatim>\<open>SetLogFilename\<close> from several threads. A thread is
  idle, waits for the mutex \<^verbatim>\<open>print_lock\<close>, or is inside \<^verbatim>\<open>PrintAndLog\<close> at one of the
  blocks of its body, with its locals \<^verbatim>\<open>fmt\<close>, \<^verbatim>\<open>need_hack\<close>, \<^verbatim>\<open>saved_point\<close> and
  \<^verbatim>\<open>saved_line\<close>. One step of the system is one block of one thread; the three writes of
  a message to the standard output are three steps. \<^verbatim>\<open>SetLogFilename\<close> takes no lock.
  The theory shows that the mutex keeps the threads apart, that every reachable state is
  the state after a sequence of whole calls, in the order in which the calls ran their
  first block, that the console holds the lines of the calls that have ended and a part
  of the line of the call in progress and nothing else, that the thread inside ends by
  its own steps, and that a blocked thread always has a step to wait for.
\<close>

section \<open>Threads and steps\<close>

type_synonym tid = nat

datatype stage = Open | Save | Print | Pad | Newline | Restore | Log | Flush | Unlock

datatype pc = Idle | Wait string | In stage string bool "nat \<times> string"

type_synonym config = "ui_state \<times> (tid \<Rightarrow> pc)"

fun inside :: "pc \<Rightarrow> bool" where
  "inside (In st msg hack saved) = True"
| "inside pc = False"

text \<open>One block of \<^verbatim>\<open>PrintAndLog\<close>, run by the thread that holds the mutex.\<close>

fun advance :: "stage \<Rightarrow> string \<Rightarrow> bool \<Rightarrow> nat \<times> string \<Rightarrow> ui_state \<Rightarrow> pc \<times> ui_state" where
  "advance Open msg hack saved s =
     (let s' = open_log s in (In Save msg (need_hack s') saved, s'))"
| "advance Save msg hack saved s =
     (let (saved', s') = save_line hack s in (In Print msg hack saved', s'))"
| "advance Print msg hack saved s = (In Pad msg hack saved, put_console msg s)"
| "advance Pad msg hack saved s =
     (In Newline msg hack saved, put_console (replicate 10 CHR '' '') s)"
| "advance Newline msg hack saved s = (In Restore msg hack saved, put_console newline s)"
| "advance Restore msg hack saved s = (In Log msg hack saved, restore_line hack saved s)"
| "advance Log msg hack saved s = (In Flush msg hack saved, write_log msg s)"
| "advance Flush msg hack saved s = (In Unlock msg hack saved, flush_all s)"
| "advance Unlock msg hack saved s = (Idle, s\<lparr>print_lock := False\<rparr>)"

inductive step :: "config \<Rightarrow> config \<Rightarrow> bool" where
  call: "pcs t = Idle \<Longrightarrow> step (s, pcs) (s, pcs(t := Wait msg))"
| lock: "pcs t = Wait msg \<Longrightarrow> \<not> print_lock s \<Longrightarrow>
         step (s, pcs) (s\<lparr>print_lock := True\<rparr>, pcs(t := In Open msg False (0, [])))"
| run: "pcs t = In st msg hack saved \<Longrightarrow> advance st msg hack saved s = (pc', s') \<Longrightarrow>
        step (s, pcs) (s', pcs(t := pc'))"
| setname: "pcs t = Idle \<Longrightarrow> step (s, pcs) (SetLogFilename fn s, pcs)"

inductive reachable :: "ui_state \<Rightarrow> config \<Rightarrow> bool" for s0 where
  start: "reachable s0 (s0, \<lambda>t. Idle)"
| after: "reachable s0 c \<Longrightarrow> step c c' \<Longrightarrow> reachable s0 c'"

text \<open>Runs of a given number of steps.\<close>

inductive steps :: "nat \<Rightarrow> config \<Rightarrow> config \<Rightarrow> bool" where
  none: "steps 0 c c"
| more: "step c c' \<Longrightarrow> steps n c' c'' \<Longrightarrow> steps (Suc n) c c''"

inductive_cases stepE: "step (s, pcs) c'"

section \<open>Runs with their history\<close>

text \<open>
  The steps again, each with the event it makes: a thread calls \<^verbatim>\<open>PrintAndLog\<close>, takes the
  mutex, runs the block it stands before, or runs \<^verbatim>\<open>SetLogFilename\<close>. \<open>fires\<close> is \<open>step\<close>
  with this label (\<open>step_iff_fires\<close>), and \<open>trace\<close> is a run from the state in which all
  threads are idle with the list of its events, so that what a run has done can be read
  from its history.
\<close>

datatype event = Called tid string | Entered tid string | Ran tid stage string | Renamed tid string

inductive fires :: "config \<Rightarrow> event \<Rightarrow> config \<Rightarrow> bool" where
  call: "pcs t = Idle \<Longrightarrow> fires (s, pcs) (Called t msg) (s, pcs(t := Wait msg))"
| lock: "pcs t = Wait msg \<Longrightarrow> \<not> print_lock s \<Longrightarrow>
         fires (s, pcs) (Entered t msg)
           (s\<lparr>print_lock := True\<rparr>, pcs(t := In Open msg False (0, [])))"
| run: "pcs t = In st msg hack saved \<Longrightarrow> advance st msg hack saved s = (pc', s') \<Longrightarrow>
        fires (s, pcs) (Ran t st msg) (s', pcs(t := pc'))"
| setname: "pcs t = Idle \<Longrightarrow> fires (s, pcs) (Renamed t fn) (SetLogFilename fn s, pcs)"

inductive trace :: "ui_state \<Rightarrow> event list \<Rightarrow> config \<Rightarrow> bool" for s0 where
  empty: "trace s0 [] (s0, \<lambda>t. Idle)"
| snoc: "trace s0 evs c \<Longrightarrow> fires c ev c' \<Longrightarrow> trace s0 (evs @ [ev]) c'"

section \<open>Sequential runs\<close>

datatype op = PrintOp string | SetNameOp string

fun run_ops :: "op list \<Rightarrow> ui_state \<Rightarrow> ui_state option" where
  "run_ops [] s = Some s"
| "run_ops (PrintOp msg # ops) s =
     (case PrintAndLog msg s of None \<Rightarrow> None | Some s' \<Rightarrow> run_ops ops s')"
| "run_ops (SetNameOp fn # ops) s = run_ops ops (SetLogFilename fn s)"

text \<open>
  The rest of a call from a stage on, as one function of the state. A call that has
  not yet passed its first block has had no effect but to take the mutex.
\<close>

definition tail_log :: "string \<Rightarrow> bool \<Rightarrow> nat \<times> string \<Rightarrow> ui_state \<Rightarrow> ui_state" where
  "tail_log msg hack saved s =
     (flush_all (write_log msg (restore_line hack saved s)))\<lparr>print_lock := False\<rparr>"

fun rest :: "stage \<Rightarrow> string \<Rightarrow> bool \<Rightarrow> nat \<times> string \<Rightarrow> ui_state \<Rightarrow> ui_state" where
  "rest Open msg hack saved s = s\<lparr>print_lock := False\<rparr>"
| "rest Save msg hack saved s =
     (let (saved', s') = save_line hack s in tail_log msg hack saved' (print_console msg s'))"
| "rest Print msg hack saved s = tail_log msg hack saved (print_console msg s)"
| "rest Pad msg hack saved s =
     tail_log msg hack saved (put_console newline (put_console (replicate 10 CHR '' '') s))"
| "rest Newline msg hack saved s = tail_log msg hack saved (put_console newline s)"
| "rest Restore msg hack saved s = tail_log msg hack saved s"
| "rest Log msg hack saved s = (flush_all (write_log msg s))\<lparr>print_lock := False\<rparr>"
| "rest Flush msg hack saved s = (flush_all s)\<lparr>print_lock := False\<rparr>"
| "rest Unlock msg hack saved s = s\<lparr>print_lock := False\<rparr>"

fun complete :: "pc \<Rightarrow> ui_state \<Rightarrow> ui_state" where
  "complete (In st msg hack saved) s = rest st msg hack saved s"
| "complete pc s = s"

text \<open>
  What a history says. The calls in the order in which they take effect: a call of
  \<^verbatim>\<open>PrintAndLog\<close> when it runs its first block, where it reads the file name, and a call
  of \<^verbatim>\<open>SetLogFilename\<close> when it runs. The messages of the calls that have run to their
  end, in the order in which they released the mutex. What a call that stands before a
  block has written of its line. The stages from a given one on, and the events of one
  call that no other thread interrupts.
\<close>

fun call_of :: "event \<Rightarrow> op list" where
  "call_of (Ran t Open msg) = [PrintOp msg]"
| "call_of (Renamed t fn) = [SetNameOp fn]"
| "call_of ev = []"

definition calls :: "event list \<Rightarrow> op list" where
  "calls evs = concat (map call_of evs)"

fun ended :: "event \<Rightarrow> string list" where
  "ended (Ran t Unlock msg) = [msg]"
| "ended ev = []"

definition finished :: "event list \<Rightarrow> string list" where
  "finished evs = concat (map ended evs)"

fun written :: "stage \<Rightarrow> string \<Rightarrow> string" where
  "written Open msg = []"
| "written Save msg = []"
| "written Print msg = []"
| "written Pad msg = msg"
| "written Newline msg = msg @ replicate 10 CHR '' ''"
| "written st msg = console_line msg"

fun progress :: "pc \<Rightarrow> string" where
  "progress (In st msg hack saved) = written st msg"
| "progress pc = []"

definition later :: "stage \<Rightarrow> stage list" where
  "later st = dropWhile (\<lambda>x. x \<noteq> st) [Open, Save, Print, Pad, Newline, Restore, Log, Flush, Unlock]"

definition call_events :: "tid \<Rightarrow> string \<Rightarrow> event list" where
  "call_events t msg = Called t msg # Entered t msg # map (\<lambda>st. Ran t st msg) (later Open)"

section \<open>Mutual exclusion\<close>

definition holders :: "(tid \<Rightarrow> pc) \<Rightarrow> tid set" where
  "holders pcs = {t. inside (pcs t)}"

definition lock_inv :: "ui_state \<Rightarrow> (tid \<Rightarrow> pc) \<Rightarrow> bool" where
  "lock_inv s pcs \<longleftrightarrow> (if print_lock s then \<exists>t. holders pcs = {t} else holders pcs = {})"

lemma holders_upd:
  "holders (pcs(t := pc')) = (if inside pc' then insert t (holders pcs) else holders pcs - {t})"
  by (auto simp: holders_def)

lemma holders_member: "t \<in> holders pcs \<longleftrightarrow> inside (pcs t)"
  by (simp add: holders_def)

lemma inside_advance:
  "advance st msg hack saved s = (pc', s') \<Longrightarrow>
   (inside pc' \<longleftrightarrow> st \<noteq> Unlock) \<and> (print_lock s' \<longleftrightarrow> (st \<noteq> Unlock \<and> print_lock s))"
  by (cases st)
     (auto simp: Let_def save_line_def put_console_def restore_line_def rl_replace_line_def
       split: prod.splits if_splits)

lemma lock_inv_run:
  assumes "lock_inv s pcs" and "pcs t = In st msg hack saved"
    and "advance st msg hack saved s = (pc', s')"
  shows "lock_inv s' (pcs(t := pc'))"
proof -
  from assms(2) have t: "t \<in> holders pcs"
    by (simp add: holders_member)
  with assms(1) have held: "print_lock s" and only: "holders pcs = {t}"
    by (auto simp: lock_inv_def split: if_splits)
  show ?thesis
  proof (cases "st = Unlock")
    case True
    with inside_advance [OF assms(3)] only show ?thesis
      by (simp add: lock_inv_def holders_upd)
  next
    case False
    with inside_advance [OF assms(3)] held only show ?thesis
      by (simp add: lock_inv_def holders_upd)
  qed
qed

lemma lock_inv_step:
  assumes "step (s, pcs) (s', pcs')" and "lock_inv s pcs"
  shows "lock_inv s' pcs'"
  using assms(1)
proof (cases rule: step.cases)
  case (call t msg)
  with assms(2) have "t \<notin> holders pcs"
    by (simp add: holders_member)
  with call assms(2) show ?thesis
    by (simp add: lock_inv_def holders_upd)
next
  case (lock t msg)
  with assms(2) show ?thesis
    by (simp add: lock_inv_def holders_upd)
next
  case (run t st msg hack saved pc')
  with assms(2) show ?thesis
    by (auto intro: lock_inv_run)
next
  case (setname t fn)
  with assms(2) show ?thesis
    by (simp add: lock_inv_def SetLogFilename_def)
qed

lemma lock_inv_reachable:
  assumes "reachable s0 c" and "\<not> print_lock s0"
  shows "lock_inv (fst c) (snd c)"
  using assms
proof (induction rule: reachable.induct)
  case start
  then show ?case by (simp add: lock_inv_def holders_def)
next
  case (after c c')
  then show ?case by (cases c; cases c') (auto intro: lock_inv_step)
qed

section \<open>Steps and events\<close>

lemma step_iff_fires: "step c c' \<longleftrightarrow> (\<exists>ev. fires c ev c')"
proof
  assume "step c c'"
  then show "\<exists>ev. fires c ev c'"
    by cases (blast intro: fires.intros)+
next
  assume "\<exists>ev. fires c ev c'"
  then obtain ev where "fires c ev c'" ..
  then show "step c c'"
    by cases (blast intro: step.intros)+
qed

lemma trace_reachable: "trace s0 evs c \<Longrightarrow> reachable s0 c"
proof (induction rule: trace.induct)
  case empty
  show ?case by (rule reachable.start)
next
  case (snoc evs c ev c')
  from snoc(2) have "step c c'"
    unfolding step_iff_fires ..
  with snoc(3) show ?case
    by (rule reachable.after)
qed

lemma reachable_trace: "reachable s0 c \<Longrightarrow> \<exists>evs. trace s0 evs c"
  by (induction rule: reachable.induct) (blast intro: trace.intros dest: step_iff_fires [THEN iffD1])+

lemma trace_lock_inv: "trace s0 evs (s, pcs) \<Longrightarrow> \<not> print_lock s0 \<Longrightarrow> lock_inv s pcs"
  using lock_inv_reachable [OF trace_reachable, of s0 evs "(s, pcs)"] by simp

lemma trace_called:
  "trace s0 evs (s, pcs) \<Longrightarrow> pcs t = Idle \<Longrightarrow> trace s0 (evs @ [Called t msg]) (s, pcs(t := Wait msg))"
  by (blast intro: trace.snoc fires.call)

lemma trace_entered:
  "trace s0 evs (s, pcs) \<Longrightarrow> pcs t = Wait msg \<Longrightarrow> \<not> print_lock s \<Longrightarrow>
   trace s0 (evs @ [Entered t msg]) (s\<lparr>print_lock := True\<rparr>, pcs(t := In Open msg False (0, [])))"
  by (blast intro: trace.snoc fires.lock)

lemma trace_ran:
  "trace s0 evs (s, pcs) \<Longrightarrow> pcs t = In st msg hack saved \<Longrightarrow>
   trace s0 (evs @ [Ran t st msg])
     (snd (advance st msg hack saved s), pcs(t := fst (advance st msg hack saved s)))"
  by (rule trace.snoc, assumption, rule fires.run) simp_all

lemma trace_renamed:
  "trace s0 evs (s, pcs) \<Longrightarrow> pcs t = Idle \<Longrightarrow>
   trace s0 (evs @ [Renamed t fn]) (SetLogFilename fn s, pcs)"
  by (blast intro: trace.snoc fires.setname)

lemma calls_snoc [simp]: "calls (evs @ [ev]) = calls evs @ call_of ev"
  by (simp add: calls_def)

lemma finished_snoc [simp]: "finished (evs @ [ev]) = finished evs @ ended ev"
  by (simp add: finished_def)

section \<open>Every reachable state is the state after whole calls\<close>

lemma rest_advance:
  assumes "advance st msg hack saved s = (pc', s')" and "st \<noteq> Open"
  shows "complete pc' s' = rest st msg hack saved s"
  using assms
  by (cases st; cases "save_line hack s") (auto simp: tail_log_def print_console_def)

lemma rest_open:
  assumes "advance Open msg hack saved s = (pc', s')" and "print_lock s"
  shows "PrintAndLog msg (s\<lparr>print_lock := False\<rparr>) = Some (complete pc' s')"
proof -
  from assms(2) have "s\<lparr>print_lock := False, print_lock := True\<rparr> = s"
    by simp
  with assms(1) show ?thesis
    by (cases "save_line (need_hack (open_log s)) (open_log s)")
       (auto simp: PrintAndLog_def print_body_def Let_def tail_log_def)
qed

lemma rest_setname:
  "rest st msg hack saved (SetLogFilename fn s) = SetLogFilename fn (rest st msg hack saved s)"
  by (cases st) (simp_all add: tail_log_def print_console_def setname_commutes split_beta)

lemma run_ops_append:
  "run_ops (ops @ ops') s = (case run_ops ops s of None \<Rightarrow> None | Some s' \<Rightarrow> run_ops ops' s')"
  by (induction ops s rule: run_ops.induct) (simp_all split: option.splits)

text \<open>
  The state that the calls made so far amount to: the state itself when no thread is
  inside, and the state after the rest of its call for the thread that is inside.
\<close>

definition stands_for :: "ui_state \<Rightarrow> ui_state \<Rightarrow> (tid \<Rightarrow> pc) \<Rightarrow> bool" where
  "stands_for a s pcs \<longleftrightarrow>
     (\<forall>t \<in> holders pcs. a = complete (pcs t) s) \<and> (holders pcs = {} \<longrightarrow> a = s)"

definition linear :: "ui_state \<Rightarrow> ui_state \<Rightarrow> (tid \<Rightarrow> pc) \<Rightarrow> bool" where
  "linear s0 s pcs \<longleftrightarrow> (\<exists>ops a. run_ops ops s0 = Some a \<and> stands_for a s pcs)"

lemma complete_outside [simp]: "\<not> inside pc \<Longrightarrow> complete pc s = s"
  by (cases pc) simp_all

lemma stands_for_upd:
  assumes "holders pcs \<subseteq> {t}"
  shows "stands_for a s' (pcs(t := pc')) \<longleftrightarrow> a = complete pc' s'"
proof (cases "inside pc'")
  case True
  with assms have "holders (pcs(t := pc')) = {t}"
    by (auto simp: holders_upd)
  then show ?thesis
    by (simp add: stands_for_def)
next
  case False
  with assms have "holders (pcs(t := pc')) = {}"
    by (auto simp: holders_upd)
  with False show ?thesis
    by (simp add: stands_for_def)
qed

lemma stands_for_other:
  assumes "stands_for a s pcs" and "\<not> inside (pcs t)" and "\<not> inside pc'"
  shows "stands_for a s (pcs(t := pc'))"
proof -
  from assms(2,3) have "holders (pcs(t := pc')) = holders pcs"
    by (auto simp: holders_upd holders_member)
  moreover have "(pcs(t := pc')) u = pcs u" if "u \<in> holders pcs" for u
    using that assms(2) by (auto simp: holders_member)
  ultimately show ?thesis
    using assms(1) by (simp add: stands_for_def)
qed

lemma stands_for_setname:
  assumes "stands_for a s pcs"
  shows "stands_for (SetLogFilename fn a) (SetLogFilename fn s) pcs"
proof -
  have "complete pc (SetLogFilename fn s) = SetLogFilename fn (complete pc s)" for pc
    by (cases pc) (simp_all add: rest_setname)
  with assms show ?thesis
    by (simp add: stands_for_def)
qed

lemma run_ops_snoc_print:
  "run_ops ops s0 = Some a \<Longrightarrow> PrintAndLog msg a = Some a' \<Longrightarrow>
   run_ops (ops @ [PrintOp msg]) s0 = Some a'"
  by (simp add: run_ops_append)

lemma run_ops_snoc_setname:
  "run_ops ops s0 = Some a \<Longrightarrow> run_ops (ops @ [SetNameOp fn]) s0 = Some (SetLogFilename fn a)"
  by (simp add: run_ops_append)

lemma stands_for_run:
  assumes ops: "run_ops ops s0 = Some a" and sf: "stands_for a s pcs" and inv: "lock_inv s pcs"
    and pc: "pcs t = In st msg hack saved" and adv: "advance st msg hack saved s = (pc', s')"
  shows "\<exists>a'. run_ops (ops @ call_of (Ran t st msg)) s0 = Some a' \<and>
              stands_for a' s' (pcs(t := pc'))"
proof -
  from pc have "t \<in> holders pcs"
    by (simp add: holders_member)
  with inv have held: "print_lock s" and only: "holders pcs = {t}"
    by (auto simp: lock_inv_def split: if_splits)
  from sf only pc have a: "a = rest st msg hack saved s"
    by (simp add: stands_for_def)
  from only have sub: "holders pcs \<subseteq> {t}"
    by simp
  show ?thesis
  proof (cases "st = Open")
    case True
    from rest_open [OF adv [unfolded True] held] ops a True
    have "run_ops (ops @ [PrintOp msg]) s0 = Some (complete pc' s')"
      by (intro run_ops_snoc_print [of ops s0 "s\<lparr>print_lock := False\<rparr>"]) simp_all
    with True show ?thesis
      unfolding stands_for_upd [OF sub] by simp
  next
    case False
    then have "call_of (Ran t st msg) = []"
      by (cases st) simp_all
    with rest_advance [OF adv False] ops a show ?thesis
      unfolding stands_for_upd [OF sub] by simp
  qed
qed

lemma stands_for_fires:
  assumes "fires (s, pcs) ev (s', pcs')" and ops: "run_ops ops s0 = Some a"
    and sf: "stands_for a s pcs" and inv: "lock_inv s pcs"
  shows "\<exists>a'. run_ops (ops @ call_of ev) s0 = Some a' \<and> stands_for a' s' pcs'"
  using assms(1)
proof (cases rule: fires.cases)
  case (call t msg)
  with ops sf show ?thesis
    by (simp add: stands_for_other)
next
  case (lock t msg)
  with inv have none: "holders pcs = {}"
    by (simp add: lock_inv_def)
  with sf have "a = s"
    by (simp add: stands_for_def)
  moreover from lock have "s\<lparr>print_lock := True, print_lock := False\<rparr> = s"
    by simp
  ultimately show ?thesis
    using none lock ops by (simp add: stands_for_upd)
next
  case (run t st msg hack saved pc')
  with stands_for_run [OF ops sf inv] show ?thesis
    by simp
next
  case (setname t fn)
  with run_ops_snoc_setname [OF ops, of fn] stands_for_setname [OF sf, of fn] show ?thesis
    by simp
qed

lemma trace_linear:
  assumes "trace s0 evs c" and "\<not> print_lock s0"
  shows "\<exists>a. run_ops (calls evs) s0 = Some a \<and> stands_for a (fst c) (snd c)"
  using assms
proof (induction rule: trace.induct)
  case empty
  then show ?case
    by (simp add: calls_def stands_for_def holders_def)
next
  case (snoc evs c ev c')
  then obtain a where a: "run_ops (calls evs) s0 = Some a" "stands_for a (fst c) (snd c)"
    by blast
  obtain s pcs s' pcs' where c: "c = (s, pcs)" "c' = (s', pcs')"
    by (cases c; cases c')
  from snoc(1,4) c have "lock_inv s pcs"
    by (simp add: trace_lock_inv)
  from stands_for_fires [OF snoc(2) [unfolded c] a(1) a(2) [unfolded c fst_conv snd_conv] this] c
  show ?case
    by simp
qed

lemma linear_reachable:
  assumes "reachable s0 c" and "\<not> print_lock s0"
  shows "linear s0 (fst c) (snd c)"
proof -
  from reachable_trace [OF assms(1)] obtain evs where "trace s0 evs c" ..
  from trace_linear [OF this assms(2)] show ?thesis
    unfolding linear_def by blast
qed

section \<open>The console in every state\<close>

text \<open>
  The invariant \<open>whole_lines\<close>: the console is a given text followed by what the thread
  inside, if there is one, has written of its line. Every step keeps it, with the line of
  a call added to the given text when the call ends.
\<close>

definition whole_lines :: "string \<Rightarrow> ui_state \<Rightarrow> (tid \<Rightarrow> pc) \<Rightarrow> bool" where
  "whole_lines base s pcs \<longleftrightarrow>
     (\<forall>t \<in> holders pcs. console s = base @ progress (pcs t)) \<and>
     (holders pcs = {} \<longrightarrow> console s = base)"

lemma console_put_console [simp]: "console (put_console txt s) = console s @ txt"
  by (simp add: put_console_def Let_def)

lemma console_steps [simp]:
  "console (snd (save_line hack s)) = console s"
  "console (restore_line hack saved s) = console s"
  by (simp_all add: save_line_def restore_line_def rl_replace_line_def)

lemma whole_lines_upd:
  assumes "holders pcs \<subseteq> {t}"
  shows "whole_lines base s' (pcs(t := pc')) \<longleftrightarrow> console s' = base @ progress pc'"
proof (cases "inside pc'")
  case True
  with assms have "holders (pcs(t := pc')) = {t}"
    by (auto simp: holders_upd)
  then show ?thesis
    by (simp add: whole_lines_def)
next
  case False
  with assms have "holders (pcs(t := pc')) = {}"
    by (auto simp: holders_upd)
  with False show ?thesis
    by (cases pc') (simp_all add: whole_lines_def)
qed

lemma console_advance:
  assumes "advance st msg hack saved s = (pc', s')" and "console s = base @ written st msg"
  shows "console s' = (base @ concat (map console_line (ended (Ran t st msg)))) @ progress pc'"
  using assms
  by (cases st) (auto simp: Let_def console_line_def split_beta)

lemma whole_lines_fires:
  assumes "fires (s, pcs) ev (s', pcs')" and inv: "lock_inv s pcs" and wl: "whole_lines base s pcs"
  shows "whole_lines (base @ concat (map console_line (ended ev))) s' pcs'"
  using assms(1)
proof (cases rule: fires.cases)
  case (call t msg)
  then have "holders pcs' = holders pcs" "\<And>u. u \<in> holders pcs \<Longrightarrow> pcs' u = pcs u"
    by (auto simp: holders_upd holders_member)
  with wl call show ?thesis
    by (simp add: whole_lines_def)
next
  case (lock t msg)
  with inv have none: "holders pcs = {}"
    by (simp add: lock_inv_def)
  then have "holders pcs \<subseteq> {t}"
    by simp
  moreover from wl none have "console s = base"
    by (simp add: whole_lines_def)
  ultimately show ?thesis
    using lock by (simp add: whole_lines_upd)
next
  case (run t st msg hack saved pc')
  then have "t \<in> holders pcs"
    by (simp add: holders_member)
  with inv have only: "holders pcs = {t}"
    by (auto simp: lock_inv_def split: if_splits)
  with wl run have "console s = base @ written st msg"
    by (simp add: whole_lines_def)
  moreover from only have "holders pcs \<subseteq> {t}"
    by simp
  ultimately show ?thesis
    using console_advance [OF run(4), of base t] run by (simp add: whole_lines_upd)
next
  case (setname t fn)
  with wl show ?thesis
    by (simp add: whole_lines_def)
qed

lemma trace_console:
  assumes "trace s0 evs c" and "\<not> print_lock s0"
  shows "whole_lines (console s0 @ concat (map console_line (finished evs))) (fst c) (snd c)"
  using assms
proof (induction rule: trace.induct)
  case empty
  then show ?case
    by (simp add: finished_def whole_lines_def holders_def)
next
  case (snoc evs c ev c')
  obtain s pcs s' pcs' where c: "c = (s, pcs)" "c' = (s', pcs')"
    by (cases c; cases c')
  from snoc(1,4) c have "lock_inv s pcs"
    by (simp add: trace_lock_inv)
  from whole_lines_fires [OF snoc(2) [unfolded c] this, of "console s0 @ concat (map console_line (finished evs))"]
    snoc(3,4) c show ?case
    by simp
qed

section \<open>The blocks of a call\<close>

text \<open>How many blocks a call has still to run.\<close>

fun blocks_left :: "pc \<Rightarrow> nat" where
  "blocks_left (In Open msg hack saved) = 9"
| "blocks_left (In Save msg hack saved) = 8"
| "blocks_left (In Print msg hack saved) = 7"
| "blocks_left (In Pad msg hack saved) = 6"
| "blocks_left (In Newline msg hack saved) = 5"
| "blocks_left (In Restore msg hack saved) = 4"
| "blocks_left (In Log msg hack saved) = 3"
| "blocks_left (In Flush msg hack saved) = 2"
| "blocks_left (In Unlock msg hack saved) = 1"
| "blocks_left pc = 0"

lemma blocks_left_advance:
  "advance st msg hack saved s = (pc', s') \<Longrightarrow> Suc (blocks_left pc') = blocks_left (In st msg hack saved)"
  by (cases st; cases "save_line hack s") (auto simp: Let_def)

lemma advance_shape:
  "advance st msg hack saved s = (pc', s') \<Longrightarrow> st \<noteq> Unlock \<Longrightarrow>
   \<exists>st' hack' saved'. pc' = In st' msg hack' saved' \<and> st' \<noteq> Open"
  by (cases st; cases "save_line hack s") (auto simp: Let_def)

lemma steps_finish:
  assumes "pcs t = In st msg hack saved" and "st \<noteq> Open"
  shows "steps (blocks_left (In st msg hack saved)) (s, pcs)
           (rest st msg hack saved s, pcs(t := Idle))"
  using assms
proof (induction "blocks_left (In st msg hack saved)" arbitrary: st s pcs hack saved)
  case 0
  then show ?case by (cases st) simp_all
next
  case (Suc n)
  obtain pc' s' where adv: "advance st msg hack saved s = (pc', s')"
    by (cases "advance st msg hack saved s")
  from Suc(3) adv have one: "step (s, pcs) (s', pcs(t := pc'))"
    by (rule step.run)
  from rest_advance [OF adv Suc(4)] have c: "complete pc' s' = rest st msg hack saved s" .
  show ?case
  proof (cases "st = Unlock")
    case True
    with adv c have "pc' = Idle" "s' = rest st msg hack saved s"
      by auto
    with one steps.none [of "(s', pcs(t := Idle))"] True show ?thesis
      by (auto intro: steps.more)
  next
    case False
    with advance_shape [OF adv] obtain st' hack' saved' where
      pc': "pc' = In st' msg hack' saved'" "st' \<noteq> Open"
      by blast
    from blocks_left_advance [OF adv] Suc(2) pc' have n: "n = blocks_left (In st' msg hack' saved')"
      by simp
    from Suc(1) [OF n _ pc'(2), of "pcs(t := pc')" s'] pc' c n
    have "steps n (s', pcs(t := pc')) (rest st msg hack saved s, pcs(t := Idle))"
      by simp
    with one have "steps (Suc n) (s, pcs) (rest st msg hack saved s, pcs(t := Idle))"
      by (rule steps.more)
    with Suc(2) show ?thesis
      by simp
  qed
qed

text \<open>The history of a call that runs to its end, and of a whole call.\<close>

lemma later_advance:
  "advance st msg hack saved s = (pc', s') \<Longrightarrow>
   later st = st # (case pc' of In st' m h sv \<Rightarrow> later st' | _ \<Rightarrow> [])"
  by (cases st) (auto simp: later_def Let_def split_beta)

lemma trace_finish:
  assumes "trace s0 evs (s, pcs)" and "pcs t = In st msg hack saved" and "st \<noteq> Open"
  shows "trace s0 (evs @ map (\<lambda>x. Ran t x msg) (later st))
           (rest st msg hack saved s, pcs(t := Idle))"
  using assms
proof (induction "blocks_left (In st msg hack saved)" arbitrary: st s pcs hack saved evs)
  case 0
  then show ?case by (cases st) simp_all
next
  case (Suc n)
  obtain pc' s' where adv: "advance st msg hack saved s = (pc', s')"
    by (cases "advance st msg hack saved s")
  from Suc(4) adv have "fires (s, pcs) (Ran t st msg) (s', pcs(t := pc'))"
    by (rule fires.run)
  with Suc(3) have one: "trace s0 (evs @ [Ran t st msg]) (s', pcs(t := pc'))"
    by (rule trace.snoc)
  from rest_advance [OF adv Suc(5)] have c: "complete pc' s' = rest st msg hack saved s" .
  show ?case
  proof (cases "st = Unlock")
    case True
    with adv c have "pc' = Idle" "s' = rest st msg hack saved s"
      by auto
    with one True show ?thesis
      by (simp add: later_def)
  next
    case False
    with advance_shape [OF adv] obtain st' hack' saved' where
      pc': "pc' = In st' msg hack' saved'" "st' \<noteq> Open"
      by blast
    from blocks_left_advance [OF adv] Suc(2) pc' have n: "n = blocks_left (In st' msg hack' saved')"
      by simp
    from Suc(1) [OF n one _ pc'(2)] pc'(1)
    have "trace s0 ((evs @ [Ran t st msg]) @ map (\<lambda>x. Ran t x msg) (later st'))
        (rest st' msg hack' saved' s', pcs(t := Idle))"
      by simp
    with pc' c later_advance [OF adv] show ?thesis
      by simp
  qed
qed

lemma trace_call:
  assumes tr: "trace s0 evs (s, pcs)" and idle: "pcs t = Idle" and free: "\<not> print_lock s"
    and p: "PrintAndLog msg s = Some s'"
  shows "trace s0 (evs @ call_events t msg) (s', pcs)"
proof -
  let ?l = "s\<lparr>print_lock := True\<rparr>"
  from idle have "fires (s, pcs) (Called t msg) (s, pcs(t := Wait msg))"
    by (rule fires.call)
  with tr have t1: "trace s0 (evs @ [Called t msg]) (s, pcs(t := Wait msg))"
    by (rule trace.snoc)
  from free have "fires (s, pcs(t := Wait msg)) (Entered t msg)
      (?l, (pcs(t := Wait msg))(t := In Open msg False (0, [])))"
    by (intro fires.lock) simp_all
  with t1 have t2: "trace s0 (evs @ [Called t msg, Entered t msg])
      (?l, pcs(t := In Open msg False (0, [])))"
    by (auto dest: trace.snoc)
  obtain pc' s1 where adv: "advance Open msg False (0, []) ?l = (pc', s1)"
    by (cases "advance Open msg False (0, []) ?l")
  then obtain hack where pc': "pc' = In Save msg hack (0, [])"
    by (auto simp: Let_def)
  have "fires (?l, pcs(t := In Open msg False (0, []))) (Ran t Open msg)
      (s1, (pcs(t := In Open msg False (0, [])))(t := pc'))"
    by (rule fires.run [OF _ adv]) simp
  with t2 have t3: "trace s0 (evs @ [Called t msg, Entered t msg, Ran t Open msg]) (s1, pcs(t := pc'))"
    by (auto dest: trace.snoc)
  from trace_finish [OF t3, of t Save msg hack "(0, [])"] pc' idle later_advance [OF adv]
  have "trace s0 (evs @ call_events t msg) (complete pc' s1, pcs)"
    by (simp add: fun_upd_idem call_events_def)
  moreover from free have "?l\<lparr>print_lock := False\<rparr> = s"
    by simp
  with rest_open [OF adv] p have "complete pc' s1 = s'"
    by simp
  ultimately show ?thesis
    by simp
qed

section \<open>A run with two threads\<close>

text \<open>
  Thread 0 has called \<^verbatim>\<open>PrintAndLog\<close> and holds the mutex; thread 1 has called it and
  waits.
\<close>

definition two_threads :: config where
  "two_threads =
     ((initial (\<lambda>f. []) (\<lambda>f. True))\<lparr>print_lock := True\<rparr>,
      (\<lambda>t. Idle)(0 := In Open ''a'' False (0, []), 1 := Wait ''b''))"

lemma two_threads_reachable: "reachable (initial (\<lambda>f. []) (\<lambda>f. True)) two_threads"
proof -
  let ?s0 = "initial (\<lambda>f. []) (\<lambda>f. True)"
  have "step (?s0, \<lambda>t. Idle) (?s0, (\<lambda>t. Idle)(0 := Wait ''a''))"
    by (rule step.call) simp
  moreover have "step (?s0, (\<lambda>t. Idle)(0 := Wait ''a''))
      (?s0\<lparr>print_lock := True\<rparr>, ((\<lambda>t. Idle)(0 := Wait ''a''))(0 := In Open ''a'' False (0, [])))"
    by (rule step.lock) (simp_all add: initial_def)
  moreover have "step (?s0\<lparr>print_lock := True\<rparr>, (\<lambda>t. Idle)(0 := In Open ''a'' False (0, [])))
      (?s0\<lparr>print_lock := True\<rparr>, ((\<lambda>t. Idle)(0 := In Open ''a'' False (0, [])))(1 := Wait ''b''))"
    by (rule step.call) simp
  ultimately show ?thesis
    unfolding two_threads_def
    by (auto intro: reachable.after [OF reachable.after [OF reachable.after [OF reachable.start]]])
qed

section \<open>Properties of concurrent calls\<close>

text \<open>
  C9: Mutual exclusion. In every state that calls of \<^verbatim>\<open>PrintAndLog\<close> and
  \<^verbatim>\<open>SetLogFilename\<close> from any number of threads can reach, at most one thread is between
  \<^verbatim>\<open>pthread_mutex_lock\<close> and \<^verbatim>\<open>pthread_mutex_unlock\<close>, and the mutex is taken exactly when
  there is one.
\<close>

theorem mutual_exclusion:
  assumes "reachable s0 (s, pcs)" and "\<not> print_lock s0"
  shows "(print_lock s \<longleftrightarrow> (\<exists>t. inside (pcs t))) \<and>
         (\<forall>t u. inside (pcs t) \<and> inside (pcs u) \<longrightarrow> t = u)"
proof -
  from lock_inv_reachable [OF assms] have inv: "lock_inv s pcs"
    by simp
  show ?thesis
  proof (cases "print_lock s")
    case True
    with inv obtain x where "holders pcs = {x}"
      by (auto simp: lock_inv_def)
    with True show ?thesis
      by (metis holders_member singletonD singletonI)
  next
    case False
    with inv have "holders pcs = {}"
      by (simp add: lock_inv_def)
    with False show ?thesis
      by (metis holders_member empty_iff)
  qed
qed

theorem mutual_exclusion_witness:
  "reachable (initial (\<lambda>f. []) (\<lambda>f. True)) two_threads \<and>
   (\<exists>t. inside (snd two_threads t)) \<and> \<not> inside (snd two_threads 1)"
  using mutual_exclusion [of "initial (\<lambda>f. []) (\<lambda>f. True)" "fst two_threads" "snd two_threads"]
    two_threads_reachable
  by (simp add: two_threads_def initial_def)

text \<open>
  C10: Every interleaving is a sequence of whole calls. For every reachable state there
  is a list of calls of \<^verbatim>\<open>PrintAndLog\<close> and \<^verbatim>\<open>SetLogFilename\<close> whose execution one after
  the other, each call run to its end, gives that state when no thread is inside
  \<^verbatim>\<open>PrintAndLog\<close>, and gives the state after the rest of the call of the thread that is
  inside otherwise. A call takes its place in the list when it opens the log file.
\<close>

theorem interleaving_linearizes:
  assumes "reachable s0 (s, pcs)" and "\<not> print_lock s0"
  shows "\<exists>ops a. run_ops ops s0 = Some a \<and>
           (\<forall>t. inside (pcs t) \<longrightarrow> a = complete (pcs t) s) \<and>
           ((\<forall>t. \<not> inside (pcs t)) \<longrightarrow> a = s)"
proof -
  from linear_reachable [OF assms] obtain ops a where
    "run_ops ops s0 = Some a" "stands_for a s pcs"
    by (auto simp: linear_def)
  then show ?thesis
    by (intro exI [of _ ops] exI [of _ a]) (auto simp: stands_for_def holders_def)
qed

theorem interleaving_linearizes_witness:
  "reachable (initial (\<lambda>f. []) (\<lambda>f. True)) two_threads \<and>
   (\<exists>ops. run_ops ops (initial (\<lambda>f. []) (\<lambda>f. True)) = Some (initial (\<lambda>f. []) (\<lambda>f. True)))"
proof -
  let ?s0 = "initial (\<lambda>f. []) (\<lambda>f. True)"
  have free: "\<not> print_lock ?s0"
    by (simp add: initial_def)
  have r: "reachable ?s0 (fst two_threads, snd two_threads)"
    using two_threads_reachable by simp
  from interleaving_linearizes [OF r free]
  obtain ops a where ops: "run_ops ops ?s0 = Some a"
    and a: "\<forall>t. inside (snd two_threads t) \<longrightarrow> a = complete (snd two_threads t) (fst two_threads)"
    by (elim exE conjE)
  from a [rule_format, of 0] have "a = ?s0"
    by (simp add: two_threads_def initial_def)
  with ops have "\<exists>ops. run_ops ops ?s0 = Some ?s0"
    by (intro exI [of _ ops]) simp
  with two_threads_reachable show ?thesis
    by (rule_tac conjI)
qed

text \<open>
  C24: Whole lines on the console. In every run of the threads the console holds what
  it held at the start, then one whole line for each call of \<^verbatim>\<open>PrintAndLog\<close> that has
  run to its end, in the order in which these calls released the mutex, each line the
  message of that call followed by ten spaces and a newline, and then, when a thread is
  inside, what this one call has written of its own line so far: nothing before its
  first write, the message after it, the message and the ten spaces after the second,
  the whole line after the third. The writes of two calls are never mixed, and no other
  text reaches the console.
\<close>

theorem console_whole_lines:
  assumes "trace s0 evs (s, pcs)" and "\<not> print_lock s0"
  shows "((\<forall>t. \<not> inside (pcs t)) \<longrightarrow>
            console s = console s0 @ concat (map console_line (finished evs))) \<and>
         (\<forall>t. inside (pcs t) \<longrightarrow>
            console s = console s0 @ concat (map console_line (finished evs)) @ progress (pcs t))"
  using trace_console [OF assms] by (auto simp: whole_lines_def holders_def)

theorem console_whole_lines_witness:
  "\<exists>evs s pcs. trace (initial (\<lambda>f. []) (\<lambda>f. True)) evs (s, pcs) \<and> finished evs = [''a''] \<and>
     pcs 1 = In Pad ''b'' False (0, []) \<and> console s = console_line ''a'' @ ''b''"
proof -
  let ?s0 = "initial (\<lambda>f. []) (\<lambda>f. True)"
  let ?sa = "after_call ''a'' ?s0"
  let ?evs = "call_events 0 ''a'' @
    [Called 1 ''b'', Entered 1 ''b'', Ran 1 Open ''b'', Ran 1 Save ''b'', Ran 1 Print ''b'']"
  let ?pcs = "(\<lambda>t::tid. Idle)(1 := In Pad ''b'' False (0, []))"
  have free: "\<not> print_lock ?s0" "\<not> print_lock ?sa" "\<not> rl_readcmd ?sa"
    using ui_inv_after [of ?s0 "''a''"] by (simp_all add: ui_inv_def initial_def)
  from trace_call [where t = 0 and msg = "''a''" and s' = ?sa, OF trace.empty _ free(1)]
  have "trace ?s0 (call_events 0 ''a'') (?sa, \<lambda>t. Idle)"
    by (simp add: PrintAndLog_eq)
  note trace_called [where t = 1 and msg = "''b''", OF this]
  note trace_entered [where t = 1 and msg = "''b''", OF this]
  note trace_ran [where t = 1, OF this]
  note trace_ran [where t = 1, OF this]
  note trace_ran [where t = 1, OF this]
  with free have tr: "trace ?s0 ?evs (put_console ''b'' (open_log (?sa\<lparr>print_lock := True\<rparr>)), ?pcs)"
    by (simp add: need_hack_def save_line_def)
  have "finished ?evs = [''a'']"
    by (simp add: finished_def call_events_def later_def)
  with console_whole_lines [OF tr free(1)] tr show ?thesis
    by (intro exI [of _ ?evs] exI [of _ "put_console ''b'' (open_log (?sa\<lparr>print_lock := True\<rparr>))"]
        exI [of _ ?pcs]) (simp add: initial_def)
qed

text \<open>
  C26: No waiting for ever on a thread that runs. When a thread waits for the mutex,
  either it can take it now, or the thread that holds it can run its next block and
  has then fewer blocks left before it releases the mutex; a call has at most nine.
\<close>

theorem waiting_thread_progress:
  assumes "reachable s0 (s, pcs)" and "\<not> print_lock s0" and "pcs t = Wait msg"
  shows "(\<exists>s'. step (s, pcs) (s', pcs(t := In Open msg False (0, [])))) \<or>
         (\<exists>u pc' s'. inside (pcs u) \<and> step (s, pcs) (s', pcs(u := pc')) \<and>
            blocks_left pc' < blocks_left (pcs u) \<and> blocks_left (pcs u) \<le> 9)"
proof (cases "print_lock s")
  case False
  with assms(3) show ?thesis
    by (blast intro: step.lock)
next
  case True
  with lock_inv_reachable [OF assms(1,2)] obtain u where "inside (pcs u)"
    by (auto simp: lock_inv_def holders_def)
  then obtain st m hack saved where u: "pcs u = In st m hack saved"
    by (cases "pcs u") simp_all
  obtain pc' s' where adv: "advance st m hack saved s = (pc', s')"
    by (cases "advance st m hack saved s")
  from blocks_left_advance [OF adv] u have "blocks_left pc' < blocks_left (pcs u)"
    "blocks_left (pcs u) \<le> 9"
    by (cases st; simp)+
  moreover from u adv have "step (s, pcs) (s', pcs(u := pc'))"
    by (rule step.run)
  ultimately show ?thesis
    using \<open>inside (pcs u)\<close> by blast
qed

theorem waiting_thread_progress_witness:
  "(\<exists>s'. step two_threads (s', (snd two_threads)(1 := In Open ''b'' False (0, [])))) \<or>
   (\<exists>u pc' s'. inside (snd two_threads u) \<and> step two_threads (s', (snd two_threads)(u := pc')) \<and>
      blocks_left pc' < blocks_left (snd two_threads u) \<and> blocks_left (snd two_threads u) \<le> 9)"
  using waiting_thread_progress [of "initial (\<lambda>f. []) (\<lambda>f. True)" "fst two_threads"
      "snd two_threads" 1 "''b''"] two_threads_reachable
  by (simp add: two_threads_def initial_def)

text \<open>
  C25: A call that holds the mutex ends. From any state in which a thread is inside
  \<^verbatim>\<open>PrintAndLog\<close> past its first block, the steps of that thread alone, as many as it
  has blocks left and at most eight, bring it back to idle with the mutex released
  and the state that the rest of its call computes, whatever the other threads have
  asked for.
\<close>

theorem call_terminates:
  assumes "pcs t = In st msg hack saved" and "st \<noteq> Open"
  shows "steps (blocks_left (pcs t)) (s, pcs) (rest st msg hack saved s, pcs(t := Idle)) \<and>
         \<not> print_lock (rest st msg hack saved s) \<and> blocks_left (pcs t) \<le> 8"
proof -
  have "\<not> print_lock (rest st msg hack saved s)"
    by (cases st; cases "save_line hack s") (simp_all add: tail_log_def)
  moreover have "blocks_left (In st msg hack saved) \<le> 8"
    using assms(2) by (cases st) simp_all
  ultimately show ?thesis
    using steps_finish [of pcs t st msg hack saved s] assms by simp
qed

theorem call_terminates_witness:
  "steps 7 ((initial (\<lambda>f. []) (\<lambda>f. True))\<lparr>print_lock := True\<rparr>,
       (\<lambda>t. Idle)(0 := In Print ''a'' False (0, []), 1 := Wait ''b''))
     (rest Print ''a'' False (0, []) ((initial (\<lambda>f. []) (\<lambda>f. True))\<lparr>print_lock := True\<rparr>),
       (\<lambda>t. Idle)(1 := Wait ''b''))"
proof -
  let ?pcs = "(\<lambda>t::tid. Idle)(0 := In Print ''a'' False (0, []), 1 := Wait ''b'')"
  have "?pcs(0 := Idle) = (\<lambda>t. Idle)(1 := Wait ''b'')"
    by (rule ext) simp
  with call_terminates [of ?pcs 0 Print "''a''" False "(0, [])"
      "(initial (\<lambda>f. []) (\<lambda>f. True))\<lparr>print_lock := True\<rparr>"]
  show ?thesis
    by simp
qed

text \<open>
  C29: The order of the calls. The history of a run fixes the order in which its calls
  take effect: run one after the other in the order in which the calls of
  \<^verbatim>\<open>PrintAndLog\<close> ran their first block and the calls of \<^verbatim>\<open>SetLogFilename\<close> ran, each
  call to its end, they give the state of the run when no thread is inside
  \<^verbatim>\<open>PrintAndLog\<close>, and the state after the rest of the call of the thread that is inside
  otherwise. A call of \<^verbatim>\<open>SetLogFilename\<close> that runs while another thread is inside, after
  that thread's first block, counts as coming after its whole call.
\<close>

theorem calls_in_order:
  assumes "trace s0 evs (s, pcs)" and "\<not> print_lock s0"
  shows "\<exists>a. run_ops (calls evs) s0 = Some a \<and>
           (\<forall>t. inside (pcs t) \<longrightarrow> a = complete (pcs t) s) \<and>
           ((\<forall>t. \<not> inside (pcs t)) \<longrightarrow> a = s)"
  using trace_linear [OF assms] by (auto simp: stands_for_def holders_def)

theorem calls_in_order_witness:
  "\<exists>evs a. trace (initial (\<lambda>f. []) (\<lambda>f. True)) evs (a, \<lambda>t. Idle) \<and>
     calls evs = [PrintOp ''a'', SetNameOp ''x.log''] \<and>
     run_ops [PrintOp ''a'', SetNameOp ''x.log''] (initial (\<lambda>f. []) (\<lambda>f. True)) = Some a"
proof -
  let ?s0 = "initial (\<lambda>f. []) (\<lambda>f. True)"
  let ?sa = "after_call ''a'' ?s0"
  let ?evs = "call_events 0 ''a'' @ [Renamed 1 ''x.log'']"
  have free: "\<not> print_lock ?s0"
    by (simp add: initial_def)
  from trace_call [where t = 0 and msg = "''a''" and s' = ?sa, OF trace.empty _ free]
  have "trace ?s0 (call_events 0 ''a'') (?sa, \<lambda>t. Idle)"
    by (simp add: PrintAndLog_eq)
  from trace_renamed [where t = 1 and fn = "''x.log''", OF this]
  have tr: "trace ?s0 ?evs (SetLogFilename ''x.log'' ?sa, \<lambda>t. Idle)"
    by simp
  have "calls ?evs = [PrintOp ''a'', SetNameOp ''x.log'']"
    by (simp add: calls_def call_events_def later_def)
  with calls_in_order [OF tr free] tr show ?thesis
    by (intro exI [of _ ?evs] exI [of _ "SetLogFilename ''x.log'' ?sa"]) simp
qed

end
