(* ===== verification/Spec2Isabelle.thy ===== *)
theory Spec2Isabelle
  imports Decoder Presenter Print_Lock
begin

text \<open>
  \<^bold>\<open>Verification of the Manchester decoder of \<^verbatim>\<open>src/client/ui.c\<close>.\<close>

  The file holds four C functions. \<^verbatim>\<open>manchester_decode\<close> turns a trace of byte samples into
  decoded bits; \<^verbatim>\<open>PrintPaddedManchester\<close> prints decoded bits in lines of a block size;
  \<^verbatim>\<open>PrintAndLog\<close> writes one formatted message to the console and to a log file under a
  mutex; \<^verbatim>\<open>SetLogFilename\<close> sets the name of that file. The decoder and the presenter
  talk to the logger only by calling \<^verbatim>\<open>PrintAndLog\<close>; the model records each call as a
  value of \<open>log_msg\<close>, in the order of the calls.

  \<^bold>\<open>Theories, in the order of the code.\<close>
  \<^item> \<open>MD_Prelude\<close>: bytes (\<open>u8 = 8 word\<close>), traces, the messages, the reasons to stop
    (\<open>abort\<close>), sequencing of fallible steps (\<open>seq\<close>), the tolerance test \<open>near\<close>
    (\<^verbatim>\<open>abs(lc - t) < tolerance\<close>) with its arithmetic, list facts.
  \<^item> \<open>Levels\<close>: the first loop of \<^verbatim>\<open>manchester_decode\<close> (\<open>detect_levels\<close>), which finds
    \<^verbatim>\<open>high\<close> and \<^verbatim>\<open>low\<close>.
  \<^item> \<open>Clock\<close>: the second loop (\<open>get_clock\<close>), the least distance between two starts of
    a peak, against the reference \<open>clock_spec\<close>.
  \<^item> \<open>Transition\<close>: the two searches for the first high and the first low after it
    (\<open>skip_to_high\<close>, \<open>find_low\<close>).
  \<^item> \<open>Buffer\<close>: the local variables that the later loops share, as the record
    \<open>dec_state\<close> (the array \<^verbatim>\<open>bitStream\<close>, the cursors \<^verbatim>\<open>bitidx\<close> and \<^verbatim>\<open>bit2idx\<close>,
    \<^verbatim>\<open>lastval\<close>, \<^verbatim>\<open>warnings\<close>, and the messages printed so far), with checked reads and
    writes of the array.
  \<^item> \<open>Window_Demod\<close>: the branch \<^verbatim>\<open>high != 1\<close> (\<open>window_hits\<close>, \<open>window_bit\<close>,
    \<open>window_loop\<close>), against the references \<open>both_levels\<close> and \<open>toggle_spec\<close>.
  \<^item> \<open>Pulse_Demod\<close>: the branch for traces of zeros and ones (\<open>pulse_step\<close>,
    \<open>pulse_loop\<close>), against the reference \<open>pulse_stream\<close> over the \<open>transitions\<close> of the
    trace.
  \<^item> \<open>Pairing\<close>: the final loop that pairs symbols in place (\<open>pair_step\<close>,
    \<open>pair_loop\<close>), against the reference \<open>pair_syms\<close> on lists.
  \<^item> \<open>Decoder\<close>: \<open>demodulate\<close> composes the stages as the function body does,
    \<open>finish\<close> is the \<^verbatim>\<open>memcpy\<close> and the \<^verbatim>\<open>uint8_t\<close> return value, \<open>manchester_decode\<close>
    the whole function.
  \<^item> \<open>Presenter\<close>: \<^verbatim>\<open>PrintPaddedManchester\<close> (\<open>print_blocks\<close> is its loop, \<open>slice\<close> the
    argument of \<^verbatim>\<open>sprint_bin\<close>), against the reference \<open>chunks\<close>; the formatter is a
    parameter.
  \<^item> \<open>Logging\<close>: \<^verbatim>\<open>PrintAndLog\<close> and \<^verbatim>\<open>SetLogFilename\<close> on the record \<open>ui_state\<close> of the
    static variables, \<^verbatim>\<open>flushAfterWrite\<close>, the mutex, the readline line, the standard
    output with its buffer and the files, one definition per block of \<^verbatim>\<open>PrintAndLog\<close>
    (\<open>open_log\<close>, \<open>save_line\<close>, \<open>put_console\<close> for each of the three writes,
    \<open>restore_line\<close>, \<open>write_log\<close>, \<open>flush_all\<close>); \<open>render\<close> gives the text of each
    message.
  \<^item> \<open>Print_Lock\<close>: calls of the two functions from any number of threads. A thread
    is idle, blocked in \<^verbatim>\<open>pthread_mutex_lock\<close>, or inside \<^verbatim>\<open>PrintAndLog\<close> before one of
    its blocks (\<open>stage\<close>) with its locals; \<open>advance\<close> runs one block with the
    definitions of \<open>Logging\<close>, and the relation \<open>step\<close> lets any thread call, take the
    free mutex, run its next block, or run \<^verbatim>\<open>SetLogFilename\<close>, which takes no lock.
    \<open>reachable\<close> and \<open>steps\<close> are the runs; \<open>fires\<close> is \<open>step\<close> with the event each
    step makes and \<open>trace\<close> a run with the list of its events; \<open>run_ops\<close> is a
    sequential run of whole calls, the specification of the interleavings.
  \<^item> This theory: a decode followed by its messages going through \<^verbatim>\<open>PrintAndLog\<close>
    (\<open>decode_session\<close>), and a decode followed by the presenter on its result
    (\<open>decode_and_present\<close>), which is what the callers of the two functions do.

  \<^bold>\<open>How the model reads the C.\<close> Samples and buffer cells are \<open>8 word\<close>. The \<^verbatim>\<open>int\<close>
  variables that hold indices, counts, levels and the clock are natural numbers: every
  value they take lies between 0 and the larger of the trace length and 65535
  (\<open>detect_clock_le\<close>, \<open>high_of_le255\<close>, \<open>start_of_le\<close>, \<open>pulse_inv\<close>), so for traces
  shorter than \<open>2^31\<close> samples no \<^verbatim>\<open>int\<close> overflows; differences that C takes under
  \<^verbatim>\<open>abs\<close> are taken in \<open>int\<close>. The bit of the window branch and \<^verbatim>\<open>invert\<close> are
  \<open>int\<close> with \<open>XOR\<close>. The returned count and the two byte-sized locals of the
  presenter are \<open>8 word\<close>, so that their truncation is part of the model. Every loop is a
  recursive function on its index, with the measure \<open>bound - index\<close>; no fuel is used
  and every function is total. An access outside \<^verbatim>\<open>bitStream\<close> or \<^verbatim>\<open>dataout\<close>, and the
  read of \<^verbatim>\<open>data[i-1]\<close> at \<^verbatim>\<open>i = 0\<close>, is the result \<open>Inl (OutOfBounds, _)\<close>; the other
  reads of \<^verbatim>\<open>data\<close> are plain list lookups, which stand under the loop tests
  \<^verbatim>\<open>i < bytelength\<close> or, in the window loops, at an index that \<open>window_index_in_bounds\<close>
  shows to lie inside; the three \<^verbatim>\<open>return 0\<close> statements are
  \<open>Inl (ClockWrong, _)\<close>, \<open>Inl (TooManyDetection, _)\<close> and \<open>Inl (TooManyDecode, _)\<close>
  inside the decoder and a returned count of 0 at its end. In the presenter a division
  by zero and a read outside the bits are values of \<open>present_fault\<close>, returned with
  the messages printed before them. In the
  sequential model a call of \<^verbatim>\<open>PrintAndLog\<close> that finds the mutex taken is \<open>None\<close>, since
  no other thread can release it; in \<open>Print_Lock\<close> such a thread stays blocked until the
  holder has run its last block. The standard output is the text written to it
  (\<open>console\<close>) and the number of its characters that have left the buffer of the
  stream for certain (\<open>shown\<close>): a write that holds a newline passes on everything up
  to its last newline when the stream is buffered by lines, \<^verbatim>\<open>fflush(NULL)\<close> passes on
  everything, and a full buffer, which could pass on more, is not modelled. The log file
  is flushed by every call, so \<open>files\<close> is what the file holds.
  The messages of the decoder do not depend on the state of the logger, so the model
  collects them during the decode and \<open>print_all\<close> passes them to \<^verbatim>\<open>PrintAndLog\<close> in the
  order of the calls.

  \<^bold>\<open>What is shown.\<close> For each loop of the decoder: its result against a reference
  definition on lists, the bounds of what it computes, and which variables it leaves
  alone. For the decoder: that no access leaves an array once the trace has two samples
  and the caller's buffer is as long as the trace; what is returned on each branch, as a
  function of the trace; when it gives up; that the count is returned modulo 256. For
  the presenter: that it prints the runs of the bits in order when the number of lines
  fits a byte, that it reads nothing behind the bits, what it loses otherwise, and
  exactly when it divides by zero or reads behind its buffer and what it has printed by
  then. For
  the logger: an invariant of its state, what a call appends to the console and to
  which file, that the line being edited is restored, when a message has left the buffer
  of the standard output, and two consequences of the static file handle. For
  concurrent calls: that at most one thread is between lock and unlock and the mutex is
  held exactly then (\<open>lock_inv\<close>); that every reachable state, with the call of the
  holder completed, is the state after a sequential run of whole calls (\<open>linear\<close>, a
  refinement mapping that linearises a call at its first block), and that this run is
  the one the history gives (\<open>calls\<close>); that the console always holds the lines of
  the calls that have ended, in the order of their ends, and the part of its line that
  the call in progress has written (\<open>whole_lines\<close>); that the holder ends in as many steps as \<open>blocks_left\<close> counts, at
  most nine, whatever others do, and that a blocked thread always has a step of its own
  or of the holder to wait for. Here: that every message of a decode reaches the console
  as one line, and what the presenter shows of a decode.

  Each property is evaluated on a concrete trace or state by its witness, by
  simplification with the collection \<open>md_defs\<close>.

  \<^bold>\<open>Not modelled.\<close> The call \<^verbatim>\<open>free(bitStream)\<close> on an array that was never allocated
  with \<^verbatim>\<open>malloc\<close>; the rendering of format strings by \<^verbatim>\<open>vprintf\<close> other than \<^verbatim>\<open>%d\<close> and
  \<^verbatim>\<open>%s\<close> in the messages of this file; the redisplay of the prompt by readline
  (\<^verbatim>\<open>rl_save_prompt\<close>, \<^verbatim>\<open>rl_redisplay\<close>, \<^verbatim>\<open>rl_restore_prompt\<close>), which draws and does not
  change the line or the cursor; the size of the stream buffers; the scheduler, so that
  progress of the threads is the existence of steps with a decreasing count and not a
  statement under fairness, and the steps of a thread are the blocks of \<^verbatim>\<open>PrintAndLog\<close>
  and not single machine instructions (\<^verbatim>\<open>SetLogFilename\<close> is one store); \<^verbatim>\<open>sprint_bin\<close>,
  which is a parameter of the presenter; the globals of the plot window declared at the
  top of the file, which no function of the file uses.
\<close>

section \<open>A decode and its messages\<close>

text \<open>The messages of a call of \<^verbatim>\<open>manchester_decode\<close>, whether it gives up or not.\<close>

definition messages :: "(abort \<times> log_msg list) + md_return \<Rightarrow> log_msg list" where
  "messages r = (case r of Inl (why, l) \<Rightarrow> l | Inr v \<Rightarrow> logged v)"

definition decode_session :: "trace \<Rightarrow> u8 list \<Rightarrow> ui_state \<Rightarrow> ui_state option" where
  "decode_session data out s = print_all (messages (manchester_decode data out)) s"

text \<open>
  A decode followed by the presenter on the returned count and the caller's buffer, as
  the commands that call the two functions do; the result is the list of all messages.
\<close>

definition decode_and_present :: "formatter \<Rightarrow> trace \<Rightarrow> u8 list \<Rightarrow> nat \<Rightarrow> log_msg list" where
  "decode_and_present fmt data out blocksize =
     (case manchester_decode data out of
        Inl (why, l) \<Rightarrow> l
      | Inr v \<Rightarrow> logged v @
          (case PrintPaddedManchester fmt (dataout v) (unat (ret v)) blocksize of
             Inl (e, ls) \<Rightarrow> ls | Inr ls \<Rightarrow> ls))"

declare messages_def [md_defs] decode_session_def [md_defs] decode_and_present_def [md_defs]

lemma messages_window:
  assumes "high_of data \<noteq> 1"
  shows "messages (manchester_decode data out) = [DetectedClock (clock_of data)]"
proof -
  from demodulate_window [OF assms, of 0] obtain s where
    "demodulate data 0 = Inr s" "printed s = [DetectedClock (clock_of data)]"
    by (auto simp: wrote_bits_def)
  then show ?thesis
    by (simp add: messages_def manchester_decode_def finish_def)
qed

text \<open>
  C31: Every message of a decode reaches the console, in the order of the calls, each
  followed by ten spaces and a newline, and reaches the log file of the state, each
  followed by a newline, if there is one; the calls return and keep the invariant of the
  logger.
\<close>

theorem decode_session_prints:
  assumes "ui_inv s"
  shows "\<exists>s'. decode_session data out s = Some s' \<and> ui_inv s' \<and>
           console s' = console s @
             concat (map (\<lambda>m. console_line (render m)) (messages (manchester_decode data out))) \<and>
           files s' = (case log_target s of
               Some f \<Rightarrow> (files s)(f := files s f @
                 concat (map (\<lambda>m. render m @ newline) (messages (manchester_decode data out))))
             | None \<Rightarrow> files s)"
  using print_all_run [OF assms, of "messages (manchester_decode data out)"]
  by (auto simp: decode_session_def)

theorem decode_session_prints_witness:
  "\<exists>s'. decode_session [0, 9, 0, 9, 0, 9, 0, 9] [7, 7, 7, 7, 7, 7, 7, 7]
           (initial (\<lambda>f. []) (\<lambda>f. True)) = Some s' \<and>
     console s' = '' Detected clock: 2'' @ replicate 10 CHR '' '' @ newline \<and>
     files s' = (\<lambda>f. [])(''proxmark3.log'' := '' Detected clock: 2'' @ newline)"
proof -
  have "high_of [0, 9, 0, 9, 0, 9, 0, 9] \<noteq> 1" and c: "clock_of [0, 9, 0, 9, 0, 9, 0, 9] = 2"
    by (simp_all add: md_defs)
  from messages_window [OF this(1), of "[7, 7, 7, 7, 7, 7, 7, 7]"] c
  have "messages (manchester_decode [0, 9, 0, 9, 0, 9, 0, 9] [7, 7, 7, 7, 7, 7, 7, 7]) =
          [DetectedClock 2]"
    by simp
  with decode_session_prints [OF ui_inv_initial, of "[0, 9, 0, 9, 0, 9, 0, 9]"
      "[7, 7, 7, 7, 7, 7, 7, 7]" "\<lambda>f. []" "\<lambda>f. True"]
  show ?thesis
    by (auto simp: console_line_def log_target_def initial_def decimal.simps digit_def)
qed

text \<open>
  C30: What the presenter shows of a decode on the branch \<^verbatim>\<open>high != 1\<close>. After the clock
  come the bit count and the lines of the decoded bits, but only of the first
  \<open>n mod 256\<close> of the \<open>n\<close> bits decoded: the decoder returns the count as a byte, so a
  decode of 256 bits or more is shown as a shorter one, and one of exactly 256 bits as
  empty.
\<close>

theorem decode_then_present:
  assumes "high_of data \<noteq> 1" and "length data \<le> length out" and "0 < blocksize"
  shows "decode_and_present fmt data out blocksize =
           DetectedClock (clock_of data) #
           present_spec fmt (take (length (window_output data 0) mod 256) (window_output data 0))
             blocksize"
proof -
  let ?w = "window_output data 0"
  let ?n = "length ?w mod 256"
  let ?out = "?w @ drop (length ?w) out"
  have n: "?n \<le> length ?out" "?n \<le> length ?w" "?n div blocksize < 256" "?n mod blocksize < 256"
    by (simp_all add: trans_le_add1 div_le_dividend [THEN le_less_trans]
        mod_le_divisor mod_less_eq_dividend [THEN le_less_trans])
  from present_unfold [OF assms(3) n(1), of fmt] shown_spec [OF assms(3) n(1,3,4), of fmt] n(2)
  have "PrintPaddedManchester fmt ?out ?n blocksize = Inr (present_spec fmt (take ?n ?w) blocksize)"
    by simp
  with finish_window [OF assms(1,2), of 0] show ?thesis
    by (simp add: decode_and_present_def manchester_decode_def unat_of_nat)
qed

theorem decode_then_present_witness:
  "decode_and_present sprint_bin [0, 9, 0, 9, 0, 9, 0, 9, 0, 9] [7, 7, 7, 7, 7, 7, 7, 7, 7, 7] 2 =
     [DetectedClock 2, BitCount 3, BitLine ''10'', BitLine ''1'']"
  using decode_then_present [of "[0, 9, 0, 9, 0, 9, 0, 9, 0, 9]"
      "[7, 7, 7, 7, 7, 7, 7, 7, 7, 7]" 2 sprint_bin]
  by (simp add: md_defs)

end
